theory Spec2Isabelle
  imports Main "HOL-Library.Monad_Syntax" "HOL-Library.Multiset"
begin

section \<open>Data model (include/avl.h)\<close>

text \<open>
  \<^verbatim>\<open>struct avl_node { avl_node *left; avl_node *right; int height; void *value; }\<close>.
  A pointer to a node is either \<^verbatim>\<open>NULL\<close> or owns the node it points to (the tree never
  shares nodes), so a node pointer is a value of the datatype below: \<open>Null\<close> is the null
  pointer, \<open>Node l r h v\<close> a node with its four fields in the order of the struct.
  The field \<^verbatim>\<open>height\<close> is read by the selector \<open>height_of\<close> (the name \<open>height\<close> is
  kept for the C function \<^verbatim>\<open>height()\<close>), the field \<^verbatim>\<open>value\<close> by \<open>val\<close>. The payload
  type \<^verbatim>\<open>void *\<close> is the type parameter \<open>'a\<close>. C's \<^verbatim>\<open>int\<close> is modelled by \<open>int\<close>: heights
  are bounded by the number of nodes and comparison results are only tested for sign.
\<close>

datatype 'a avl_node =
  Null
  | Node (left: "'a avl_node") (right: "'a avl_node") (height_of: int) (val: 'a)

text \<open>The hook types \<^verbatim>\<open>avl_new_node\<close>, \<^verbatim>\<open>avl_dup_node\<close>, \<^verbatim>\<open>avl_free_node\<close>, \<^verbatim>\<open>avl_cmp_node\<close>.
  A hook that is not installed (a null function pointer) is \<open>None\<close>.\<close>

type_synonym 'a avl_new_node = "unit \<Rightarrow> 'a avl_node"
type_synonym 'a avl_dup_node = "'a avl_node \<Rightarrow> 'a avl_node"
type_synonym 'a avl_free_node = "'a avl_node \<Rightarrow> unit"
type_synonym 'a avl_cmp_node = "'a avl_node \<Rightarrow> 'a avl_node \<Rightarrow> int"

text \<open>\<^verbatim>\<open>struct avl\<close>; its field \<^verbatim>\<open>height\<close> is \<open>tree_height\<close>.\<close>

record 'a avl =
  root :: "'a avl_node"
  tree_height :: int
  new_node :: "'a avl_new_node option"
  dup_node :: "'a avl_dup_node option"
  free_node :: "'a avl_free_node option"
  cmp_node :: "'a avl_cmp_node option"

datatype avl_order =
  avl_forward_order | avl_reverse_order | avl_pre_order | avl_post_order | avl_tree_order

section \<open>Node primitives (src/avl.c)\<close>

text \<open>
  Results of type \<open>option\<close>: \<open>None\<close> is a run that does not return because it dereferences a
  null node pointer or calls through a null function pointer; \<open>Some x\<close> is a run that
  returns \<open>x\<close>. Allocation is assumed to succeed.
\<close>

fun height :: "'a avl_node \<Rightarrow> int" where
  "height Null = 0"
| "height (Node l r h v) = h"

fun avl_rotate_right :: "'a avl_node \<Rightarrow> 'a avl_node option" where
  "avl_rotate_right (Node (Node xl T2 xh xv) yr yh yv) =
     (let y = Node T2 yr (max (height T2) (height yr) + 1) yv
      in Some (Node xl y (max (height xl) (height y) + 1) xv))"
| "avl_rotate_right _ = None"

fun avl_rotate_left :: "'a avl_node \<Rightarrow> 'a avl_node option" where
  "avl_rotate_left (Node xl (Node T2 yr yh yv) xh xv) =
     (let x = Node xl T2 (max (height xl) (height T2) + 1) xv
      in Some (Node x yr (max (height x) (height yr) + 1) yv))"
| "avl_rotate_left _ = None"

fun avl_get_balance :: "'a avl_node \<Rightarrow> int" where
  "avl_get_balance Null = 0"
| "avl_get_balance (Node l r h v) = height l - height r"

fun minimum_node :: "'a avl_node \<Rightarrow> 'a avl_node option" where
  "minimum_node Null = None"
| "minimum_node (Node l r h v) = (if l \<noteq> Null then minimum_node l else Some (Node l r h v))"

text \<open>\<^verbatim>\<open>_avl_node_new\<close>: a zeroed node with the given value and height 1.\<close>

definition avl_node_new_default :: "'a \<Rightarrow> 'a avl_node" where
  "avl_node_new_default value = Node Null Null 1 value"

section \<open>Recursive core: insert\<close>

text \<open>
  The static functions \<^verbatim>\<open>_avl_insert\<close>, \<^verbatim>\<open>_avl_delete\<close>, \<^verbatim>\<open>_avl_find\<close> and \<^verbatim>\<open>__tree_order\<close>
  are named \<open>avl_insert_rec\<close>, \<open>avl_delete_rec\<close>, \<open>avl_find_rec\<close> and \<open>tree_order_rec\<close>.

  \<open>avl_insert_unwind\<close> is the part of \<^verbatim>\<open>_avl_insert\<close> after the recursive call (avl.c
  lines 445-499): \<open>node\<close> is the node with its child already replaced. The comparator is
  applied to \<open>item\<close> as it was passed in; in C the item is by then linked into the tree, with
  the same \<^verbatim>\<open>value\<close>.
\<close>

definition avl_insert_unwind ::
  "'a avl_cmp_node \<Rightarrow> 'a avl_node \<Rightarrow> 'a avl_node \<Rightarrow> 'a avl_node option" where
  "avl_insert_unwind compare item node =
     (case node of
        Null \<Rightarrow> None
      | Node l r h v \<Rightarrow>
          (let node' = Node l r (1 + max (height l) (height r)) v;
               balance = avl_get_balance node'
           in if balance > 1 \<and> compare item l < 0 then avl_rotate_right node'
              else if balance < -1 \<and> compare item r > 0 then avl_rotate_left node'
              else if balance > 1 \<and> compare item l > 0 then
                do { l' \<leftarrow> avl_rotate_left l;
                     avl_rotate_right (Node l' r (1 + max (height l) (height r)) v) }
              else if balance < -1 \<and> compare item r < 0 then
                do { r' \<leftarrow> avl_rotate_right r;
                     avl_rotate_left (Node l r' (1 + max (height l) (height r)) v) }
              else Some node'))"

fun avl_insert_rec ::
  "'a avl_node \<Rightarrow> 'a avl_node \<Rightarrow> 'a avl_cmp_node option \<Rightarrow> 'a avl_node option" where
  "avl_insert_rec Null item compare = Some item"
| "avl_insert_rec (Node l r h v) item compare =
     (if item = Null then Some (Node l r h v)
      else case compare of
        None \<Rightarrow> None
      | Some cmp \<Rightarrow>
          (let pos = cmp item (Node l r h v)
           in if pos < 0 then
                do { l' \<leftarrow> avl_insert_rec l item compare;
                     avl_insert_unwind cmp item (Node l' r h v) }
              else if pos > 0 then
                do { r' \<leftarrow> avl_insert_rec r item compare;
                     avl_insert_unwind cmp item (Node l r' h v) }
              else Some (Node l r h v)))"

section \<open>Recursive core: delete\<close>

text \<open>
  \<open>avl_delete_unwind\<close> is the part of \<^verbatim>\<open>_avl_delete\<close> from the test
  \<^verbatim>\<open>if (root == NULL) return root;\<close> to the end (avl.c lines 595-647): it takes the node
  \<^verbatim>\<open>root\<close> as the descent left it and no comparator.
\<close>

definition avl_delete_unwind :: "'a avl_node \<Rightarrow> 'a avl_node option" where
  "avl_delete_unwind node =
     (case node of
        Null \<Rightarrow> Some Null
      | Node l r h v \<Rightarrow>
          (let node' = Node l r (1 + max (height l) (height r)) v;
               balance = avl_get_balance node'
           in if balance > 1 \<and> avl_get_balance l \<ge> 0 then avl_rotate_right node'
              else if balance > 1 \<and> avl_get_balance l < 0 then
                do { l' \<leftarrow> avl_rotate_left l;
                     avl_rotate_right (Node l' r (1 + max (height l) (height r)) v) }
              else if balance < -1 \<and> avl_get_balance r \<le> 0 then avl_rotate_left node'
              else if balance < -1 \<and> avl_get_balance r > 0 then
                do { r' \<leftarrow> avl_rotate_right r;
                     avl_rotate_left (Node l r' (1 + max (height l) (height r)) v) }
              else Some node'))"

text \<open>
  The store \<^verbatim>\<open>temp->value = root_val\<close> through the pointer that \<^verbatim>\<open>minimum_node\<close> returned,
  as seen from the subtree that contains the node: the leftmost node gets the new value.
\<close>

fun set_minimum_value :: "'a avl_node \<Rightarrow> 'a \<Rightarrow> 'a avl_node" where
  "set_minimum_value Null x = Null"
| "set_minimum_value (Node l r h v) x =
     (if l \<noteq> Null then Node (set_minimum_value l x) r h v else Node l r h x)"

lemma size_set_minimum_value [simp]: "size (set_minimum_value t x) = size t"
  by (induction t) auto

text \<open>
  \<^verbatim>\<open>_avl_delete\<close> returns the new root of the subtree together with the payloads of the
  nodes it released, in the order of release: both branches of
  \<^verbatim>\<open>if (free_node) free_node(child); else free(child);\<close> release the node \<^verbatim>\<open>child\<close>, so the
  hook is not a parameter of the model. With one child, the contents of root and child are
  exchanged first: the subtree continues with the child's contents and the released node
  carries the payload of the matched node.
\<close>

function avl_delete_rec ::
  "'a avl_node \<Rightarrow> 'a avl_node \<Rightarrow> 'a avl_cmp_node option \<Rightarrow> ('a avl_node \<times> 'a list) option"
  where
  "avl_delete_rec Null target compare = Some (Null, [])"
| "avl_delete_rec (Node l r h v) target compare =
     (if target = Null then Some (Node l r h v, [])
      else case compare of
        None \<Rightarrow> Some (Node l r h v, [])
      | Some cmp \<Rightarrow>
          (let pos = cmp target (Node l r h v)
           in if pos < 0 then
                do { (l', released) \<leftarrow> avl_delete_rec l target compare;
                     t \<leftarrow> avl_delete_unwind (Node l' r h v);
                     Some (t, released) }
              else if pos > 0 then
                do { (r', released) \<leftarrow> avl_delete_rec r target compare;
                     t \<leftarrow> avl_delete_unwind (Node l r' h v);
                     Some (t, released) }
              else if l = Null \<or> r = Null then
                (let child = (if l \<noteq> Null then l else r)
                 in do { t \<leftarrow> avl_delete_unwind child;
                         Some (t, [v]) })
              else
                do { temp \<leftarrow> minimum_node r;
                     (r', released) \<leftarrow>
                        avl_delete_rec (set_minimum_value r v)
                          (Node (left temp) (right temp) (height_of temp) v) compare;
                     t \<leftarrow> avl_delete_unwind (Node l r' h (val temp));
                     Some (t, released) }))"
  by pat_completeness auto
termination
  by (relation "measure (\<lambda>(t, target, compare). size t)") auto

section \<open>Recursive core: find\<close>

fun avl_find_rec ::
  "'a avl_node \<Rightarrow> 'a avl_node \<Rightarrow> 'a avl_cmp_node option \<Rightarrow> 'a avl_node option" where
  "avl_find_rec Null target compare = Some Null"
| "avl_find_rec (Node l r h v) target compare =
     (if target = Null then Some Null
      else case compare of
        None \<Rightarrow> None
      | Some cmp \<Rightarrow>
          (let pos = cmp target (Node l r h v)
           in if pos = 0 then Some (Node l r h v)
              else if pos < 0 then avl_find_rec l target compare
              else if pos > 0 then avl_find_rec r target compare
              else Some Null))"

section \<open>Traversals\<close>

text \<open>
  The callback \<^verbatim>\<open>void (*action)(avl_node *n)\<close> acts on the world outside the tree: it is a
  function from the visited node and the state of that world to the new state, and a walk
  threads the state through the calls in the order it makes them.
\<close>

type_synonym ('a, 's) avl_action = "'a avl_node \<Rightarrow> 's \<Rightarrow> 's"

fun pre_order :: "'a avl_node \<Rightarrow> ('a, 's) avl_action option \<Rightarrow> 's \<Rightarrow> 's" where
  "pre_order Null action s = s"
| "pre_order (Node l r h v) action s =
     (case action of
        None \<Rightarrow> s
      | Some act \<Rightarrow> pre_order r action (pre_order l action (act (Node l r h v) s)))"

fun forward_order :: "'a avl_node \<Rightarrow> ('a, 's) avl_action option \<Rightarrow> 's \<Rightarrow> 's" where
  "forward_order Null action s = s"
| "forward_order (Node l r h v) action s =
     (case action of
        None \<Rightarrow> s
      | Some act \<Rightarrow>
          (let s1 = (if l \<noteq> Null then forward_order l action s else s);
               s2 = act (Node l r h v) s1
           in if r \<noteq> Null then forward_order r action s2 else s2))"

fun reverse_order :: "'a avl_node \<Rightarrow> ('a, 's) avl_action option \<Rightarrow> 's \<Rightarrow> 's" where
  "reverse_order Null action s = s"
| "reverse_order (Node l r h v) action s =
     (case action of
        None \<Rightarrow> s
      | Some act \<Rightarrow>
          (let s1 = (if r \<noteq> Null then reverse_order r action s else s);
               s2 = act (Node l r h v) s1
           in if l \<noteq> Null then reverse_order l action s2 else s2))"

fun post_order :: "'a avl_node \<Rightarrow> ('a, 's) avl_action option \<Rightarrow> 's \<Rightarrow> 's" where
  "post_order Null action s = s"
| "post_order (Node l r h v) action s =
     (case action of
        None \<Rightarrow> s
      | Some act \<Rightarrow> act (Node l r h v) (post_order r action (post_order l action s)))"

fun tree_order_rec :: "'a avl_node \<Rightarrow> ('a, 's) avl_action option \<Rightarrow> int \<Rightarrow> 's \<Rightarrow> 's" where
  "tree_order_rec Null action level s = s"
| "tree_order_rec (Node l r h v) action level s =
     (case action of
        None \<Rightarrow> s
      | Some act \<Rightarrow>
          (let s1 = (if h = level then act (Node l r h v) s else s)
           in tree_order_rec r action level (tree_order_rec l action level s1)))"

text \<open>The loop \<^verbatim>\<open>for (i = max; i >= 1; --i) __tree_order(root, action, i);\<close> from index \<open>i\<close> on.\<close>

function tree_order_loop ::
  "'a avl_node \<Rightarrow> ('a, 's) avl_action option \<Rightarrow> int \<Rightarrow> 's \<Rightarrow> 's" where
  "tree_order_loop t action i s =
     (if i \<ge> 1 then tree_order_loop t action (i - 1) (tree_order_rec t action i s) else s)"
  by pat_completeness auto
termination
  by (relation "measure (\<lambda>(t, action, i, s). nat i)") auto

declare tree_order_loop.simps [simp del]

definition tree_order :: "'a avl_node \<Rightarrow> ('a, 's) avl_action option \<Rightarrow> 's \<Rightarrow> 's" where
  "tree_order t action s =
     (if t = Null \<or> action = None then s else tree_order_loop t action (height_of t) s)"

definition avl_walk_rec ::
  "'a avl_node \<Rightarrow> avl_order \<Rightarrow> ('a, 's) avl_action option \<Rightarrow> 's \<Rightarrow> 's" where
  "avl_walk_rec t order action s =
     (if t = Null then s
      else case order of
        avl_forward_order \<Rightarrow> forward_order t action s
      | avl_reverse_order \<Rightarrow> reverse_order t action s
      | avl_pre_order \<Rightarrow> pre_order t action s
      | avl_post_order \<Rightarrow> post_order t action s
      | avl_tree_order \<Rightarrow> tree_order t action s)"

definition avl_walk ::
  "'a avl option \<Rightarrow> avl_order \<Rightarrow> ('a, 's) avl_action option \<Rightarrow> 's \<Rightarrow> 's" where
  "avl_walk tree order action s =
     (case tree of
        None \<Rightarrow> s
      | Some t \<Rightarrow> if action = None then s else avl_walk_rec (root t) order action s)"

section \<open>Tree-level facade\<close>

text \<open>
  A tree pointer \<^verbatim>\<open>avl *tree\<close> is \<open>None\<close> when null. A facade function that writes to the
  tree returns the tree as it leaves it.
\<close>

definition avl_new :: "'a avl" where
  "avl_new = \<lparr>root = Null, tree_height = 0, new_node = None, dup_node = None,
              free_node = None, cmp_node = None\<rparr>"

definition avl_set_cmp :: "'a avl option \<Rightarrow> 'a avl_cmp_node option \<Rightarrow> 'a avl option" where
  "avl_set_cmp tree f = map_option (\<lambda>t. t\<lparr>cmp_node := f\<rparr>) tree"

definition avl_set_dup :: "'a avl option \<Rightarrow> 'a avl_dup_node option \<Rightarrow> 'a avl option" where
  "avl_set_dup tree f = map_option (\<lambda>t. t\<lparr>dup_node := f\<rparr>) tree"

text \<open>\<^verbatim>\<open>avl_insert\<close>: the return value and the tree.\<close>

definition avl_insert :: "'a avl option \<Rightarrow> 'a avl_node \<Rightarrow> (int \<times> 'a avl option) option" where
  "avl_insert tree item =
     (case tree of
        None \<Rightarrow> Some (-1, None)
      | Some t \<Rightarrow>
          if item = Null then Some (-1, Some t)
          else do { new_root \<leftarrow> avl_insert_rec (root t) item (cmp_node t);
                    if new_root \<noteq> Null
                    then Some (0, Some (t\<lparr>root := new_root, tree_height := height new_root\<rparr>))
                    else Some (-1, Some t) })"

text \<open>
  \<^verbatim>\<open>avl_delete\<close>: the return value, the tree and the payloads of the released nodes. When
  \<^verbatim>\<open>_avl_delete\<close> returns \<^verbatim>\<open>NULL\<close> the function does not write to \<^verbatim>\<open>tree->root\<close>: the model
  keeps the old \<open>root\<close> field, and the released list tells whether the node it names was
  released.
\<close>

definition avl_delete ::
  "'a avl option \<Rightarrow> 'a avl_node \<Rightarrow> (int \<times> 'a avl option \<times> 'a list) option" where
  "avl_delete tree target =
     (case tree of
        None \<Rightarrow> Some (-1, None, [])
      | Some t \<Rightarrow>
          if target = Null then Some (-1, Some t, [])
          else do { (new_root, released) \<leftarrow> avl_delete_rec (root t) target (cmp_node t);
                    if new_root \<noteq> Null
                    then Some (0, Some (t\<lparr>root := new_root, tree_height := height new_root\<rparr>),
                               released)
                    else Some (-1, Some t, released) })"

definition avl_find :: "'a avl option \<Rightarrow> 'a avl_node \<Rightarrow> 'a avl_node option" where
  "avl_find tree target =
     (case tree of
        None \<Rightarrow> Some Null
      | Some t \<Rightarrow>
          if target = Null then Some Null
          else avl_find_rec (root t) target (cmp_node t))"

definition avl_node_cmp :: "'a avl option \<Rightarrow> 'a avl_node \<Rightarrow> 'a avl_node \<Rightarrow> int" where
  "avl_node_cmp tree a b =
     (case tree of
        None \<Rightarrow> 0
      | Some t \<Rightarrow>
          if a = Null \<or> b = Null then 0
          else (case cmp_node t of None \<Rightarrow> 0 | Some cmp \<Rightarrow> cmp a b))"

definition avl_node_new :: "'a avl option \<Rightarrow> 'a \<Rightarrow> 'a avl_node" where
  "avl_node_new tree value =
     (case tree of
        None \<Rightarrow> Null
      | Some t \<Rightarrow> (case new_node t of Some f \<Rightarrow> f () | None \<Rightarrow> avl_node_new_default value))"

definition avl_node_dup :: "'a avl option \<Rightarrow> 'a avl_node \<Rightarrow> 'a avl_node" where
  "avl_node_dup tree node =
     (case tree of
        None \<Rightarrow> Null
      | Some t \<Rightarrow>
          if node = Null then Null
          else (case dup_node t of
                  Some f \<Rightarrow> f node
                | None \<Rightarrow> Node Null Null 1 (val node)))"

text \<open>\<^verbatim>\<open>dup_tree\<close>: the second argument is the contents of \<^verbatim>\<open>*new_root\<close>, the result its
  contents on return.\<close>

fun dup_tree :: "'a avl option \<Rightarrow> 'a avl_node \<Rightarrow> 'a avl_node \<Rightarrow> 'a avl_node option" where
  "dup_tree tree new_root Null = Some new_root"
| "dup_tree tree new_root (Node l r h v) =
     (case tree of
        None \<Rightarrow> Some new_root
      | Some t \<Rightarrow>
          do { nr1 \<leftarrow> (if l \<noteq> Null then dup_tree tree new_root l else Some new_root);
               nr2 \<leftarrow> (let node = avl_node_dup tree (Node l r h v)
                       in if node \<noteq> Null then avl_insert_rec nr1 node (cmp_node t)
                          else Some nr1);
               if r \<noteq> Null then dup_tree tree nr2 r else Some nr2 })"

definition avl_dup :: "'a avl option \<Rightarrow> 'a avl option option" where
  "avl_dup tree =
     (case tree of
        None \<Rightarrow> Some None
      | Some t \<Rightarrow>
          do { new_root \<leftarrow> dup_tree tree Null (root t);
               Some (Some (t\<lparr>root := new_root, tree_height := 0\<rparr>)) })"

section \<open>Invariants and comparators\<close>

text \<open>The AVL property of the data model: at every node the cached heights of the children
  differ by at most one and the cached height is one more than the larger of them.\<close>

fun avl_inv :: "'a avl_node \<Rightarrow> bool" where
  "avl_inv Null = True"
| "avl_inv (Node l r h v) =
     (avl_inv l \<and> avl_inv r \<and> \<bar>height l - height r\<bar> \<le> 1 \<and> h = 1 + max (height l) (height r))"

text \<open>The nodes of a tree from left to right, and their payloads.\<close>

fun nodes_inorder :: "'a avl_node \<Rightarrow> 'a avl_node list" where
  "nodes_inorder Null = []"
| "nodes_inorder (Node l r h v) = nodes_inorder l @ [Node l r h v] @ nodes_inorder r"

fun inorder :: "'a avl_node \<Rightarrow> 'a list" where
  "inorder Null = []"
| "inorder (Node l r h v) = inorder l @ [v] @ inorder r"

fun nodes_preorder :: "'a avl_node \<Rightarrow> 'a avl_node list" where
  "nodes_preorder Null = []"
| "nodes_preorder (Node l r h v) = Node l r h v # nodes_preorder l @ nodes_preorder r"

text \<open>
  A comparator is a total order on the payloads when the sign of its result on two nodes is
  the order of the keys of their payloads, for a key function into a linear order.
\<close>

definition total_order_cmp :: "('a \<Rightarrow> 'k::linorder) \<Rightarrow> 'a avl_cmp_node \<Rightarrow> bool" where
  "total_order_cmp key cmp \<longleftrightarrow>
     (\<forall>a b. a \<noteq> Null \<longrightarrow> b \<noteq> Null \<longrightarrow>
        (cmp a b < 0 \<longleftrightarrow> key (val a) < key (val b)) \<and>
        (cmp a b > 0 \<longleftrightarrow> key (val b) < key (val a)))"

text \<open>The ordering invariant of a binary search tree, on the keys of the payloads.\<close>

fun bst :: "('a \<Rightarrow> 'k::linorder) \<Rightarrow> 'a avl_node \<Rightarrow> bool" where
  "bst key Null = True"
| "bst key (Node l r h v) =
     (bst key l \<and> bst key r \<and>
      (\<forall>x \<in> set (inorder l). key x < key v) \<and> (\<forall>x \<in> set (inorder r). key v < key x))"

text \<open>The comparator of the demonstration program (test-avl.c), on integer payloads.\<close>

definition compare :: "int avl_cmp_node" where
  "compare a b =
     (if a = Null \<or> b = Null then 0
      else if val a = val b then 0
      else if val a < val b then -1
      else if val a > val b then 1
      else 0)"

text \<open>A node as \<^verbatim>\<open>_avl_node_new\<close> makes it: no children, height 1.\<close>

definition new_leaf :: "'a avl_node \<Rightarrow> bool" where
  "new_leaf item \<longleftrightarrow> item \<noteq> Null \<and> left item = Null \<and> right item = Null \<and> height_of item = 1"

text \<open>The tree of the demonstration program (\<^verbatim>\<open>avl_new\<close>, then \<^verbatim>\<open>avl_set_cmp(tree, compare)\<close>)
  with a given root and its cached height.\<close>

definition demo_tree :: "int avl_node \<Rightarrow> int avl" where
  "demo_tree r = \<lparr>root = r, tree_height = height r, new_node = None, dup_node = None,
                   free_node = None, cmp_node = Some compare\<rparr>"

text \<open>After an insertion that made a subtree higher, the subtree leans to the side the item
  went to.\<close>

definition heavy_side :: "'a avl_cmp_node \<Rightarrow> 'a avl_node \<Rightarrow> 'a avl_node \<Rightarrow> bool" where
  "heavy_side c item t \<longleftrightarrow>
     (case t of Null \<Rightarrow> False
      | Node l r h v \<Rightarrow> (c item t < 0 \<and> height l = height r + 1) \<or>
                        (c item t > 0 \<and> height r = height l + 1))"

text \<open>
  The trees reachable from an empty tree with comparator \<open>c\<close> by calls of \<^verbatim>\<open>avl_insert\<close> (of
  new nodes) and \<^verbatim>\<open>avl_delete\<close> that return 0.
\<close>

inductive reachable :: "'a avl_cmp_node \<Rightarrow> 'a avl \<Rightarrow> bool" for c :: "'a avl_cmp_node" where
  init: "root t = Null \<Longrightarrow> tree_height t = 0 \<Longrightarrow> cmp_node t = Some c \<Longrightarrow> reachable c t"
| ins: "reachable c t \<Longrightarrow> new_leaf item \<Longrightarrow> avl_insert (Some t) item = Some (0, Some t') \<Longrightarrow>
        reachable c t'"
| del: "reachable c t \<Longrightarrow> avl_delete (Some t) target = Some (0, Some t', released) \<Longrightarrow>
        reachable c t'"

text \<open>The action that records, in order, the nodes it is called on.\<close>

definition visit :: "('a, 'a avl_node list) avl_action" where
  "visit n trace = trace @ [n]"

text \<open>The nodes a pre-order descent meets whose cached height is \<open>level\<close>, and these lists for
  the levels \<open>i\<close> down to 1, one after the other.\<close>

definition level_nodes :: "'a avl_node \<Rightarrow> int \<Rightarrow> 'a avl_node list" where
  "level_nodes t level = filter (\<lambda>n. height_of n = level) (nodes_preorder t)"

definition levels_down :: "'a avl_node \<Rightarrow> int \<Rightarrow> 'a avl_node list" where
  "levels_down t i = concat (map (level_nodes t) (rev [1..i]))"

text \<open>
  The rebalancing rule of deletion in the words of the specification: after the height is
  recomputed, a node whose balance factor exceeds 1 is rebalanced by the left-left case when
  the balance factor of its left child is \<open>\<ge> 0\<close> and by the left-right case when it is
  \<open>< 0\<close>; a node whose balance factor is below \<open>-1\<close> by the right-right case when the balance
  factor of its right child is \<open>\<le> 0\<close> and by the right-left case when it is \<open>> 0\<close>. No
  comparator takes part.
\<close>

datatype rebalance_case = Left_Left | Left_Right | Right_Right | Right_Left | No_Rotation

definition delete_case_spec :: "'a avl_node \<Rightarrow> rebalance_case" where
  "delete_case_spec node =
     (if avl_get_balance node > 1
      then (if avl_get_balance (left node) \<ge> 0 then Left_Left else Left_Right)
      else if avl_get_balance node < -1
      then (if avl_get_balance (right node) \<le> 0 then Right_Right else Right_Left)
      else No_Rotation)"

fun rotate_case :: "rebalance_case \<Rightarrow> 'a avl_node \<Rightarrow> 'a avl_node option" where
  "rotate_case Left_Left node = avl_rotate_right node"
| "rotate_case Right_Right node = avl_rotate_left node"
| "rotate_case Left_Right node =
     do { l' \<leftarrow> avl_rotate_left (left node);
          avl_rotate_right (Node l' (right node) (height_of node) (val node)) }"
| "rotate_case Right_Left node =
     do { r' \<leftarrow> avl_rotate_right (right node);
          avl_rotate_left (Node (left node) r' (height_of node) (val node)) }"
| "rotate_case No_Rotation node = Some node"

definition delete_unwind_spec :: "'a avl_node \<Rightarrow> 'a avl_node option" where
  "delete_unwind_spec node =
     (let node' = Node (left node) (right node)
                    (1 + max (height (left node)) (height (right node))) (val node)
      in rotate_case (delete_case_spec node') node')"

text \<open>A duplicate hook is faithful when it returns a new node whose payload has the key of
  the node it copies; the default (no hook) copies the payload into a new node.\<close>

definition faithful_dup :: "('a \<Rightarrow> 'k) \<Rightarrow> 'a avl \<Rightarrow> bool" where
  "faithful_dup key t \<longleftrightarrow>
     (case dup_node t of
        None \<Rightarrow> True
      | Some d \<Rightarrow> \<forall>n. n \<noteq> Null \<longrightarrow> new_leaf (d n) \<and> key (val (d n)) = key (val n))"

text \<open>Inserting, with \<^verbatim>\<open>_avl_insert\<close>, the duplicates of a list of nodes one after the other.\<close>

fun insert_copies :: "'a avl \<Rightarrow> 'a avl_node list \<Rightarrow> 'a avl_node \<Rightarrow> 'a avl_node option" where
  "insert_copies t [] acc = Some acc"
| "insert_copies t (n # ns) acc =
     do { acc' \<leftarrow> avl_insert_rec acc (avl_node_dup (Some t) n) (cmp_node t);
          insert_copies t ns acc' }"

section \<open>Heights and rotations\<close>

lemma avl_inv_height_nonneg: "avl_inv t \<Longrightarrow> 0 \<le> height t"
  by (induction t) auto

lemma avl_inv_height_pos: "avl_inv t \<Longrightarrow> t \<noteq> Null \<Longrightarrow> 1 \<le> height t"
  using avl_inv_height_nonneg by (cases t) fastforce+

lemma avl_inv_height_zero: "avl_inv t \<Longrightarrow> height t = 0 \<Longrightarrow> t = Null"
  using avl_inv_height_pos by fastforce

text \<open>The single and double rotations on the shapes that insertion and deletion produce:
  they return, the result has the AVL property, and its height is known.\<close>

lemma rotate_right_single:
  assumes "avl_inv ll" "avl_inv lr" "avl_inv r"
    and "height ll = height r + 1" "height lr = height r \<or> height lr = height r + 1"
  shows "\<exists>t'. avl_rotate_right (Node (Node ll lr lh lv) r h v) = Some t' \<and> avl_inv t' \<and>
           height t' = height lr + 2 \<and> t' \<noteq> Null"
  using assms by (auto simp: Let_def)

lemma rotate_left_single:
  assumes "avl_inv l" "avl_inv rl" "avl_inv rr"
    and "height rr = height l + 1" "height rl = height l \<or> height rl = height l + 1"
  shows "\<exists>t'. avl_rotate_left (Node l (Node rl rr rh rv) h v) = Some t' \<and> avl_inv t' \<and>
           height t' = height rl + 2 \<and> t' \<noteq> Null"
  using assms by (auto simp: Let_def)

lemma rotate_left_right:
  assumes "avl_inv ll" "avl_inv lr" "avl_inv r"
    and "height lr = height r + 1" "height ll = height r"
  shows "\<exists>l' t'. avl_rotate_left (Node ll lr lh lv) = Some l' \<and>
           avl_rotate_right (Node l' r h v) = Some t' \<and> avl_inv t' \<and>
           height t' = height r + 2 \<and> t' \<noteq> Null"
proof -
  from assms avl_inv_height_nonneg[of r] have "lr \<noteq> Null" by auto
  then obtain a b c d where lr: "lr = Node a b c d" by (cases lr) auto
  with assms show ?thesis by (auto simp: Let_def)
qed

lemma rotate_right_left:
  assumes "avl_inv l" "avl_inv rl" "avl_inv rr"
    and "height rl = height l + 1" "height rr = height l"
  shows "\<exists>r' t'. avl_rotate_right (Node rl rr rh rv) = Some r' \<and>
           avl_rotate_left (Node l r' h v) = Some t' \<and> avl_inv t' \<and>
           height t' = height l + 2 \<and> t' \<noteq> Null"
proof -
  from assms avl_inv_height_nonneg[of l] have "rl \<noteq> Null" by auto
  then obtain a b c d where "rl = Node a b c d" by (cases rl) auto
  with assms show ?thesis by (auto simp: Let_def)
qed


lemma cmp_lt: "total_order_cmp key c \<Longrightarrow> a \<noteq> Null \<Longrightarrow> b \<noteq> Null \<Longrightarrow>
   (c a b < 0) = (key (val a) < key (val b))"
  by (simp add: total_order_cmp_def)

lemma cmp_gt: "total_order_cmp key c \<Longrightarrow> a \<noteq> Null \<Longrightarrow> b \<noteq> Null \<Longrightarrow>
   (c a b > 0) = (key (val b) < key (val a))"
  by (simp add: total_order_cmp_def)

lemma insert_unwind_left:
  assumes c: "total_order_cmp key c" and item: "item \<noteq> Null" and lt: "key (val item) < key v"
    and l': "avl_inv l'" and r: "avl_inv r"
    and grow: "height l' = hl \<or> (height l' = hl + 1 \<and> (hl \<noteq> 0 \<longrightarrow> heavy_side c item l'))"
    and bal: "\<bar>hl - height r\<bar> \<le> 1" and hl: "0 \<le> hl"
  shows "\<exists>t'. avl_insert_unwind c item (Node l' r h v) = Some t' \<and> avl_inv t' \<and> t' \<noteq> Null \<and>
            (height t' = 1 + max hl (height r) \<or>
             (height t' = 2 + max hl (height r) \<and> heavy_side c item t'))"
proof (cases "height l' = height r + 2")
  case True
  with grow bal have hl1: "hl = height r + 1" and "height l' = hl + 1" by auto
  with grow avl_inv_height_nonneg[OF r] have hs: "heavy_side c item l'" by auto
  then obtain ll lr lh lv where l'eq: "l' = Node ll lr lh lv" 
    by (cases l') (auto simp: heavy_side_def)
  from l' l'eq have inv: "avl_inv ll" "avl_inv lr" "lh = 1 + max (height ll) (height lr)" by auto
  from hs l'eq consider
     (LL) "c item l' < 0" "height ll = height lr + 1"
   | (LR) "c item l' > 0" "height lr = height ll + 1"
    by (auto simp: heavy_side_def)
  then show ?thesis
  proof cases
    case LL
    with True l'eq inv have "height ll = height r + 1" "height lr = height r" by auto
    from rotate_right_single[OF inv(1,2) r this(1), of lh lv "1 + max (height l') (height r)" v] this
    obtain t' where "avl_rotate_right (Node (Node ll lr lh lv) r (1 + max (height l') (height r)) v) = Some t'"
      "avl_inv t'" "height t' = height lr + 2" "t' \<noteq> Null" by auto
    with LL True l'eq hl1 \<open>height lr = height r\<close> show ?thesis
      by (auto simp: avl_insert_unwind_def Let_def)
  next
    case LR
    with True l'eq inv have h: "height lr = height r + 1" "height ll = height r" by auto
    from rotate_left_right[OF inv(1,2) r h, of lh lv "1 + max (height l') (height r)" v]
    obtain l'' t' where "avl_rotate_left (Node ll lr lh lv) = Some l''"
      "avl_rotate_right (Node l'' r (1 + max (height l') (height r)) v) = Some t'"
      "avl_inv t'" "height t' = height r + 2" "t' \<noteq> Null" by auto
    with LR True l'eq hl1 show ?thesis
      by (auto simp: avl_insert_unwind_def Let_def)
  qed
next
  case False
  with grow bal have b: "\<bar>height l' - height r\<bar> \<le> 1" by auto
  have lt': "c item (Node l' r (1 + max (height l') (height r)) v) < 0"
    using cmp_lt[OF c item, of "Node l' r (1 + max (height l') (height r)) v"] lt by simp
  from b have "avl_insert_unwind c item (Node l' r h v) = Some (Node l' r (1 + max (height l') (height r)) v)"
    by (auto simp: avl_insert_unwind_def Let_def)
  moreover have "avl_inv (Node l' r (1 + max (height l') (height r)) v)"
    using l' r b by simp
  ultimately show ?thesis using grow bal False lt' 
    by (auto simp: heavy_side_def)
qed

lemma insert_unwind_right:
  assumes c: "total_order_cmp key c" and item: "item \<noteq> Null" and gt: "key v < key (val item)"
    and l: "avl_inv l" and r': "avl_inv r'"
    and grow: "height r' = hr \<or> (height r' = hr + 1 \<and> (hr \<noteq> 0 \<longrightarrow> heavy_side c item r'))"
    and bal: "\<bar>height l - hr\<bar> \<le> 1" and hr: "0 \<le> hr"
  shows "\<exists>t'. avl_insert_unwind c item (Node l r' h v) = Some t' \<and> avl_inv t' \<and> t' \<noteq> Null \<and>
            (height t' = 1 + max (height l) hr \<or>
             (height t' = 2 + max (height l) hr \<and> heavy_side c item t'))"
proof (cases "height r' = height l + 2")
  case True
  with grow bal have hr1: "hr = height l + 1" and "height r' = hr + 1" by auto
  with grow avl_inv_height_nonneg[OF l] have hs: "heavy_side c item r'" by auto
  then obtain rl rr rh rv where r'eq: "r' = Node rl rr rh rv" 
    by (cases r') (auto simp: heavy_side_def)
  from r' r'eq have inv: "avl_inv rl" "avl_inv rr" "rh = 1 + max (height rl) (height rr)" by auto
  from hs r'eq consider
     (RL) "c item r' < 0" "height rl = height rr + 1"
   | (RR) "c item r' > 0" "height rr = height rl + 1"
    by (auto simp: heavy_side_def)
  then show ?thesis
  proof cases
    case RR
    with True r'eq inv have "height rr = height l + 1" "height rl = height l" by auto
    from rotate_left_single[OF l inv(1,2) this(1), of rh rv "1 + max (height l) (height r')" v] this
    obtain t' where "avl_rotate_left (Node l (Node rl rr rh rv) (1 + max (height l) (height r')) v) = Some t'"
      "avl_inv t'" "height t' = height rl + 2" "t' \<noteq> Null" by auto
    with RR True r'eq hr1 \<open>height rl = height l\<close> show ?thesis
      by (auto simp: avl_insert_unwind_def Let_def)
  next
    case RL
    with True r'eq inv have h: "height rl = height l + 1" "height rr = height l" by auto
    from rotate_right_left[OF l inv(1,2) h, of rh rv "1 + max (height l) (height r')" v]
    obtain r'' t' where "avl_rotate_right (Node rl rr rh rv) = Some r''"
      "avl_rotate_left (Node l r'' (1 + max (height l) (height r')) v) = Some t'"
      "avl_inv t'" "height t' = height l + 2" "t' \<noteq> Null" by auto
    with RL True r'eq hr1 show ?thesis
      by (auto simp: avl_insert_unwind_def Let_def)
  qed
next
  case False
  with grow bal have b: "\<bar>height l - height r'\<bar> \<le> 1" by auto
  have gt': "c item (Node l r' (1 + max (height l) (height r')) v) > 0"
    using cmp_gt[OF c item, of "Node l r' (1 + max (height l) (height r')) v"] gt by simp
  from b have "avl_insert_unwind c item (Node l r' h v) = Some (Node l r' (1 + max (height l) (height r')) v)"
    by (auto simp: avl_insert_unwind_def Let_def)
  moreover have "avl_inv (Node l r' (1 + max (height l) (height r')) v)"
    using l r' b by simp
  ultimately show ?thesis using grow bal False gt' 
    by (auto simp: heavy_side_def)
qed

lemma insert_rec_avl:
  assumes c: "total_order_cmp key c" and item: "new_leaf item"
  shows "avl_inv t \<Longrightarrow>
     \<exists>t'. avl_insert_rec t item (Some c) = Some t' \<and> avl_inv t' \<and> t' \<noteq> Null \<and>
          (height t' = height t \<or>
           (height t' = height t + 1 \<and> (t \<noteq> Null \<longrightarrow> heavy_side c item t')))"
proof (induction t)
  case Null
  from item show ?case by (cases item) (auto simp: new_leaf_def)
next
  case (Node l r h v)
  from item have inz: "item \<noteq> Null" by (simp add: new_leaf_def)
  from Node.prems have il: "avl_inv l" and ir: "avl_inv r"
    and bal: "\<bar>height l - height r\<bar> \<le> 1" and h: "h = 1 + max (height l) (height r)" by auto
  note nn = avl_inv_height_nonneg[OF il] avl_inv_height_nonneg[OF ir]
  consider (lt) "c item (Node l r h v) < 0" | (gt) "c item (Node l r h v) > 0"
    | (eq) "\<not> c item (Node l r h v) < 0" "\<not> c item (Node l r h v) > 0" by linarith
  then show ?case
  proof cases
    case lt
    then have klt: "key (val item) < key v" using cmp_lt[OF c inz, of "Node l r h v"] by simp
    from Node.IH(1)[OF il] obtain l' where l': "avl_insert_rec l item (Some c) = Some l'"
      "avl_inv l'" "l' \<noteq> Null"
      "height l' = height l \<or> (height l' = height l + 1 \<and> (l \<noteq> Null \<longrightarrow> heavy_side c item l'))"
      by blast
    from l'(4) il have grow: "height l' = height l \<or>
       (height l' = height l + 1 \<and> (height l \<noteq> 0 \<longrightarrow> heavy_side c item l'))"
      by (cases l) auto
    from insert_unwind_left[OF c inz klt l'(2) ir grow bal nn(1), of h]
    obtain t' where "avl_insert_unwind c item (Node l' r h v) = Some t'" "avl_inv t'" "t' \<noteq> Null"
      "height t' = 1 + max (height l) (height r) \<or>
             (height t' = 2 + max (height l) (height r) \<and> heavy_side c item t')" by blast
    with lt inz l'(1) h show ?thesis by auto
  next
    case gt
    then have kgt: "key v < key (val item)" using cmp_gt[OF c inz, of "Node l r h v"] by simp
    from gt have ng: "\<not> c item (Node l r h v) < 0" by simp
    from Node.IH(2)[OF ir] obtain r' where r': "avl_insert_rec r item (Some c) = Some r'"
      "avl_inv r'" "r' \<noteq> Null"
      "height r' = height r \<or> (height r' = height r + 1 \<and> (r \<noteq> Null \<longrightarrow> heavy_side c item r'))"
      by blast
    from r'(4) ir have grow: "height r' = height r \<or>
       (height r' = height r + 1 \<and> (height r \<noteq> 0 \<longrightarrow> heavy_side c item r'))"
      by (cases r) auto
    from insert_unwind_right[OF c inz kgt il r'(2) grow bal nn(2), of h]
    obtain t' where "avl_insert_unwind c item (Node l r' h v) = Some t'" "avl_inv t'" "t' \<noteq> Null"
      "height t' = 1 + max (height l) (height r) \<or>
             (height t' = 2 + max (height l) (height r) \<and> heavy_side c item t')" by blast
    with gt ng inz r'(1) h show ?thesis by auto
  next
    case eq
    with inz Node.prems show ?thesis by auto
  qed
qed

section \<open>Deletion keeps the AVL property\<close>

lemma delete_unwind_avl:
  assumes l: "avl_inv l" and r: "avl_inv r" and bal: "\<bar>height l - height r\<bar> \<le> 2"
  shows "\<exists>t'. avl_delete_unwind (Node l r h v) = Some t' \<and> avl_inv t' \<and> t' \<noteq> Null \<and>
           (height t' = 1 + max (height l) (height r) \<or> 
            (height t' = max (height l) (height r) \<and> \<bar>height l - height r\<bar> = 2))"
proof -
  consider (L) "height l = height r + 2" | (R) "height r = height l + 2"
    | (B) "\<bar>height l - height r\<bar> \<le> 1" using bal by linarith
  then show ?thesis
  proof cases
    case L
    with avl_inv_height_nonneg[OF r] obtain ll lr lh lv where leq: "l = Node ll lr lh lv"
      by (cases l) auto
    from l leq have inv: "avl_inv ll" "avl_inv lr" "lh = 1 + max (height ll) (height lr)"
      "\<bar>height ll - height lr\<bar> \<le> 1" by auto
    show ?thesis
    proof (cases "height ll - height lr \<ge> 0")
      case True
      with L leq inv have hh: "height ll = height r + 1" "height lr = height r \<or> height lr = height r + 1" by auto
      from rotate_right_single[OF inv(1,2) r hh, of lh lv "1 + max (height l) (height r)" v]
      obtain t' where "avl_rotate_right (Node (Node ll lr lh lv) r (1 + max (height l) (height r)) v) = Some t'"
        "avl_inv t'" "height t' = height lr + 2" "t' \<noteq> Null" by auto
      with True L leq hh show ?thesis
        by (auto simp: avl_delete_unwind_def Let_def)
    next
      case False
      with L leq inv have hh: "height lr = height r + 1" "height ll = height r" by auto
      from rotate_left_right[OF inv(1,2) r hh, of lh lv "1 + max (height l) (height r)" v]
      obtain l'' t' where "avl_rotate_left (Node ll lr lh lv) = Some l''"
        "avl_rotate_right (Node l'' r (1 + max (height l) (height r)) v) = Some t'"
        "avl_inv t'" "height t' = height r + 2" "t' \<noteq> Null" by auto
      with False L leq show ?thesis
        by (auto simp: avl_delete_unwind_def Let_def)
    qed
  next
    case R
    with avl_inv_height_nonneg[OF l] obtain rl rr rh rv where req: "r = Node rl rr rh rv"
      by (cases r) auto
    from r req have inv: "avl_inv rl" "avl_inv rr" "rh = 1 + max (height rl) (height rr)"
      "\<bar>height rl - height rr\<bar> \<le> 1" by auto
    show ?thesis
    proof (cases "height rl - height rr \<le> 0")
      case True
      with R req inv have hh: "height rr = height l + 1" "height rl = height l \<or> height rl = height l + 1" by auto
      from rotate_left_single[OF l inv(1,2) hh, of rh rv "1 + max (height l) (height r)" v]
      obtain t' where "avl_rotate_left (Node l (Node rl rr rh rv) (1 + max (height l) (height r)) v) = Some t'"
        "avl_inv t'" "height t' = height rl + 2" "t' \<noteq> Null" by auto
      with True R req hh show ?thesis
        by (auto simp: avl_delete_unwind_def Let_def)
    next
      case False
      with R req inv have hh: "height rl = height l + 1" "height rr = height l" by auto
      from rotate_right_left[OF l inv(1,2) hh, of rh rv "1 + max (height l) (height r)" v]
      obtain r'' t' where "avl_rotate_right (Node rl rr rh rv) = Some r''"
        "avl_rotate_left (Node l r'' (1 + max (height l) (height r)) v) = Some t'"
        "avl_inv t'" "height t' = height l + 2" "t' \<noteq> Null" by auto
      with False R req show ?thesis
        by (auto simp: avl_delete_unwind_def Let_def)
    qed
  next
    case B
    then have "avl_delete_unwind (Node l r h v) = Some (Node l r (1 + max (height l) (height r)) v)"
      by (auto simp: avl_delete_unwind_def Let_def)
    with l r B show ?thesis by auto
  qed
qed

lemma delete_unwind_balanced:
  "\<bar>height l - height r\<bar> \<le> 1 \<Longrightarrow>
    avl_delete_unwind (Node l r h v) = Some (Node l r (1 + max (height l) (height r)) v)"
  by (auto simp: avl_delete_unwind_def Let_def)

lemma delete_unwind_inv: "avl_inv t \<Longrightarrow> avl_delete_unwind t = Some t"
  by (cases t) (auto simp: avl_delete_unwind_def Let_def)

lemma avl_inv_set_minimum_value [simp]: "avl_inv (set_minimum_value t x) = avl_inv t"
  and height_set_minimum_value [simp]: "height (set_minimum_value t x) = height t"
  by (induction t) auto

lemma minimum_node_Some: "t \<noteq> Null \<Longrightarrow> \<exists>ml mr mh mv. minimum_node t = Some (Node ml mr mh mv)"
  by (induction t) auto


lemma delete_rec_avl:
  "avl_inv t \<Longrightarrow>
     \<exists>t' released. avl_delete_rec t target cmpo = Some (t', released) \<and> avl_inv t' \<and>
        (height t' = height t \<or> height t' = height t - 1)"
proof (induction t target cmpo rule: avl_delete_rec.induct)
  case (1 target cmpo)
  show ?case by simp
next
  case (2 l r h v target cmpo)
  from "2.prems" have il: "avl_inv l" and ir: "avl_inv r"
    and bal: "\<bar>height l - height r\<bar> \<le> 1" and h: "h = 1 + max (height l) (height r)" by auto
  show ?case
  proof (cases "target = Null \<or> cmpo = None")
    case True
    with "2.prems" show ?thesis by (auto simp del: avl_inv.simps)
  next
    case False
    then obtain c where tn: "target \<noteq> Null" and c: "cmpo = Some c" by auto
    let ?pos = "c target (Node l r h v)"
    consider (lt) "?pos < 0" | (gt) "\<not> ?pos < 0" "?pos > 0"
      | (one) "\<not> ?pos < 0" "\<not> ?pos > 0" "l = Null \<or> r = Null"
      | (two) "\<not> ?pos < 0" "\<not> ?pos > 0" "\<not> (l = Null \<or> r = Null)" by blast
    then show ?thesis
    proof cases
      case lt
      from "2.IH"(1)[OF tn c refl lt il] obtain l' fr where
        l': "avl_delete_rec l target cmpo = Some (l', fr)" "avl_inv l'"
           "height l' = height l \<or> height l' = height l - 1" by blast
      from l'(3) bal have "\<bar>height l' - height r\<bar> \<le> 2" by auto
      from delete_unwind_avl[OF l'(2) ir this, of h v] obtain t' where
        "avl_delete_unwind (Node l' r h v) = Some t'" "avl_inv t'"
        "height t' = 1 + max (height l') (height r) \<or> 
            (height t' = max (height l') (height r) \<and> \<bar>height l' - height r\<bar> = 2)" by blast
      with lt tn c l' h bal show ?thesis by auto
    next
      case gt
      from "2.IH"(2)[OF tn c refl gt ir] obtain r' fr where
        r': "avl_delete_rec r target cmpo = Some (r', fr)" "avl_inv r'"
           "height r' = height r \<or> height r' = height r - 1" by blast
      from r'(3) bal have "\<bar>height l - height r'\<bar> \<le> 2" by auto
      from delete_unwind_avl[OF il r'(2) this, of h v] obtain t' where
        "avl_delete_unwind (Node l r' h v) = Some t'" "avl_inv t'"
        "height t' = 1 + max (height l) (height r') \<or> 
            (height t' = max (height l) (height r') \<and> \<bar>height l - height r'\<bar> = 2)" by blast
      with gt tn c r' h bal show ?thesis by auto
    next
      case one
      let ?child = "if l \<noteq> Null then l else r"
      from il ir have ic: "avl_inv ?child" by simp
      from one(3) bal h avl_inv_height_nonneg[OF il] avl_inv_height_nonneg[OF ir]
      have "height ?child = h - 1" by auto
      with one tn c delete_unwind_inv[OF ic] ic show ?thesis by (auto simp del: avl_inv.simps)
    next
      case two
      then have "r \<noteq> Null" by simp
      from minimum_node_Some[OF this] obtain ml mr mh mv where
        m: "minimum_node r = Some (Node ml mr mh mv)" by blast
      have "avl_inv (set_minimum_value r v)" using ir by simp
      from "2.IH"(3)[OF tn c refl two m this] obtain r' fr where
        r': "avl_delete_rec (set_minimum_value r v) (Node ml mr mh v) cmpo = Some (r', fr)"
          "avl_inv r'" "height r' = height r \<or> height r' = height r - 1" by auto
      from r'(3) bal have "\<bar>height l - height r'\<bar> \<le> 2" by auto
      from delete_unwind_avl[OF il r'(2) this, of h mv] obtain t' where
        "avl_delete_unwind (Node l r' h mv) = Some t'" "avl_inv t'"
        "height t' = 1 + max (height l) (height r') \<or> 
            (height t' = max (height l) (height r') \<and> \<bar>height l - height r'\<bar> = 2)" by blast
      with two tn c r' h bal m show ?thesis by auto
    qed
  qed
qed

section \<open>The AVL invariant of reachable trees\<close>

lemma avl_inv_nodes:
  "avl_inv t \<longleftrightarrow> (\<forall>n \<in> set (nodes_inorder t).
      \<bar>height (left n) - height (right n)\<bar> \<le> 1 \<and>
      height_of n = 1 + max (height (left n)) (height (right n)))"
  by (induction t) auto

lemma reachable_inv:
  assumes c: "total_order_cmp key c"
  shows "reachable c t \<Longrightarrow>
    cmp_node t = Some c \<and> avl_inv (root t) \<and> tree_height t = height (root t)"
proof (induction rule: reachable.induct)
  case (init t)
  then show ?case by simp
next
  case (ins t item t')
  from insert_rec_avl[OF c ins.hyps(2), of "root t"] ins.IH 
  obtain r' where "avl_insert_rec (root t) item (Some c) = Some r'" "avl_inv r'" "r' \<noteq> Null" 
    by blast
  with ins.hyps(2,3) ins.IH show ?case
    by (auto simp: avl_insert_def new_leaf_def)
next
  case (del t target t' released)
  from delete_rec_avl[of "root t" target "Some c"] del.IH
  obtain r' fr where "avl_delete_rec (root t) target (Some c) = Some (r', fr)" "avl_inv r'"
    by blast
  with del.hyps(2) del.IH show ?case
    by (auto simp: avl_delete_def split: if_splits)
qed

lemma new_leaf_avl_node_new:
  "new_node t = None \<Longrightarrow> new_leaf (avl_node_new (Some t) x)"
  by (simp add: avl_node_new_def avl_node_new_default_def new_leaf_def)

lemma total_order_cmp_compare: "total_order_cmp (\<lambda>x. x) compare"
  by (auto simp: total_order_cmp_def compare_def)

lemma reachable_demo:
  "reachable compare (demo_tree (Node (Node Null Null 1 10) Null 2 30))"
proof -
  have r0: "reachable compare (demo_tree Null)"
    by (rule reachable.init) (simp_all add: demo_tree_def)
  have r1: "reachable compare (demo_tree (Node Null Null 1 10))" 
    by (rule reachable.ins[OF r0, of "Node Null Null 1 10"])
       (simp_all add: demo_tree_def new_leaf_def avl_insert_def)
  have r2: "reachable compare (demo_tree (Node Null (Node Null Null 1 20) 2 10))" 
    by (rule reachable.ins[OF r1, of "Node Null Null 1 20"])
       (simp_all add: demo_tree_def new_leaf_def avl_insert_def compare_def avl_insert_unwind_def)
  have r3: "reachable compare
              (demo_tree (Node (Node Null Null 1 10) (Node Null Null 1 30) 2 20))" 
    by (rule reachable.ins[OF r2, of "Node Null Null 1 30"])
       (simp_all add: demo_tree_def new_leaf_def avl_insert_def compare_def avl_insert_unwind_def)
  show ?thesis
    by (rule reachable.del[OF r3, of "Node Null Null 1 20" _ "[20]"])
       (simp add: demo_tree_def avl_delete_def compare_def avl_delete_unwind_def)
qed

text \<open>
  Claim C1. In every tree reachable from the empty tree by successful \<^verbatim>\<open>avl_insert\<close> and
  \<^verbatim>\<open>avl_delete\<close> calls, with a total-order comparator installed, every node \<open>n\<close> satisfies
  \<open>|height(n.left) - height(n.right)| \<le> 1\<close> and
  \<open>n.height = 1 + max(height(n.left), height(n.right))\<close>, the height of an absent node
  being 0. The inserted items are new nodes (no children, height 1).
\<close>

theorem avl_invariant_reachable:
  assumes "total_order_cmp key c" and "reachable c t"
  shows "\<forall>n \<in> set (nodes_inorder (root t)).
      \<bar>height (left n) - height (right n)\<bar> \<le> 1 \<and>
      height_of n = 1 + max (height (left n)) (height (right n))"
  using reachable_inv[OF assms] avl_inv_nodes by blast

theorem avl_invariant_reachable_witness:
  "total_order_cmp (\<lambda>x. x) compare \<and>
   reachable compare (demo_tree (Node (Node Null Null 1 10) Null 2 30)) \<and>
   list_all (\<lambda>n. \<bar>height (left n) - height (right n)\<bar> \<le> 1 \<and>
                 height_of n = 1 + max (height (left n)) (height (right n)))
     (nodes_inorder (root (demo_tree (Node (Node Null Null 1 10) Null 2 30))))"
  using avl_invariant_reachable[OF total_order_cmp_compare reachable_demo]
    total_order_cmp_compare reachable_demo
  by (simp add: list_all_iff)

section \<open>Lookup\<close>

lemma map_val_nodes_inorder: "map val (nodes_inorder t) = inorder t"
  by (induction t) auto

lemma nodes_inorder_not_Null: "n \<in> set (nodes_inorder t) \<Longrightarrow> n \<noteq> Null"
  by (induction t) auto

lemma val_in_inorder: "n \<in> set (nodes_inorder t) \<Longrightarrow> val n \<in> set (inorder t)"
  using map_val_nodes_inorder[of t] by (metis image_eqI list.set_map)

lemma cmp_eq: "total_order_cmp key c \<Longrightarrow> a \<noteq> Null \<Longrightarrow> b \<noteq> Null \<Longrightarrow>
   (c a b = 0) = (key (val a) = key (val b))"
  unfolding total_order_cmp_def
  by (metis linorder_less_linear not_less_iff_gr_or_eq)

lemma find_rec_found:
  assumes c: "total_order_cmp key c" and tn: "target \<noteq> Null"
  shows "bst key t \<Longrightarrow> n \<in> set (nodes_inorder t) \<Longrightarrow> key (val n) = key (val target) \<Longrightarrow>
    avl_find_rec t target (Some c) = Some n"
proof (induction t)
  case Null
  then show ?case by simp
next
  case (Node l r h v)
  let ?t = "Node l r h v"
  from Node.prems(2) consider (L) "n \<in> set (nodes_inorder l)" | (M) "n = ?t"
    | (R) "n \<in> set (nodes_inorder r)" by auto
  then show ?case
  proof cases
    case L
    with Node.prems(1) val_in_inorder[OF L] have "key (val n) < key v" by auto
    with Node.prems(3) have "c target ?t < 0" using cmp_lt[OF c tn, of ?t] by simp
    moreover have "avl_find_rec l target (Some c) = Some n"
      using Node.IH(1) Node.prems L by simp
    ultimately show ?thesis using tn by simp
  next
    case M
    with Node.prems(3) have "c target ?t = 0" using cmp_eq[OF c tn, of ?t] by simp
    with M tn show ?thesis by simp
  next
    case R
    with Node.prems(1) val_in_inorder[OF R] have "key v < key (val n)" by auto
    with Node.prems(3) have "c target ?t > 0" using cmp_gt[OF c tn, of ?t] by simp
    moreover have "avl_find_rec r target (Some c) = Some n"
      using Node.IH(2) Node.prems R by simp
    ultimately show ?thesis using tn by simp
  qed
qed

lemma find_rec_absent:
  "\<forall>n \<in> set (nodes_inorder t). c target n \<noteq> 0 \<Longrightarrow> avl_find_rec t target (Some c) = Some Null"
  by (induction t) (auto simp: Let_def)

lemma bst_demo3: "bst (\<lambda>x. x) (Node (Node Null Null 1 10) (Node Null Null 1 30) 2 (20::int))"
  by simp

text \<open>
  Claim C9. For a tree with a comparator installed and a non-null target, \<^verbatim>\<open>avl_find\<close>
  returns the node of the tree whose key compares equal to the target's when there is one,
  and the null pointer when there is none; a null tree or a null target gives the null
  pointer as well.
\<close>

theorem avl_find_result:
  assumes "cmp_node t = Some c" and "total_order_cmp key c" and "bst key (root t)"
    and "target \<noteq> Null"
  shows "(\<forall>n \<in> set (nodes_inorder (root t)). c target n = 0 \<longrightarrow> avl_find (Some t) target = Some n) \<and>
         ((\<forall>n \<in> set (nodes_inorder (root t)). c target n \<noteq> 0) \<longrightarrow>
             avl_find (Some t) target = Some Null) \<and>
         avl_find None target = Some Null \<and> avl_find (Some t) Null = Some Null"
proof -
  have "avl_find (Some t) target = Some n"
    if "n \<in> set (nodes_inorder (root t))" "c target n = 0" for n
  proof -
    from that have "key (val n) = key (val target)"
      using cmp_eq[OF assms(2,4) nodes_inorder_not_Null[OF that(1)]] by simp
    from find_rec_found[OF assms(2,4,3) that(1) this] assms(1,4)
    show ?thesis by (simp add: avl_find_def)
  qed
  moreover have "avl_find (Some t) target = Some Null"
    if "\<forall>n \<in> set (nodes_inorder (root t)). c target n \<noteq> 0"
    using find_rec_absent[of "root t" c target] that assms(1,4) by (simp add: avl_find_def)
  ultimately show ?thesis by (simp add: avl_find_def)
qed

theorem avl_find_result_witness:
  "avl_find (Some (demo_tree (Node (Node Null Null 1 10) (Node Null Null 1 30) 2 20)))
      (Node Null Null 1 30) = Some (Node Null Null 1 30) \<and>
   avl_find (Some (demo_tree (Node (Node Null Null 1 10) (Node Null Null 1 30) 2 20)))
      (Node Null Null 1 16) = Some Null"
  using avl_find_result[of "demo_tree (Node (Node Null Null 1 10) (Node Null Null 1 30) 2 20)"
      compare "\<lambda>x. x" "Node Null Null 1 30"]
    avl_find_result[of "demo_tree (Node (Node Null Null 1 10) (Node Null Null 1 30) 2 20)"
      compare "\<lambda>x. x" "Node Null Null 1 16"]
    total_order_cmp_compare
  by (simp add: demo_tree_def compare_def)

text \<open>
  Claim C10. \<^verbatim>\<open>avl_node_cmp(tree, a, b)\<close> returns 0 when \<open>tree\<close>, \<open>a\<close> or \<open>b\<close> is null or the
  compare hook of the tree is unset, and otherwise exactly \<^verbatim>\<open>cmp_node(a, b)\<close>.
\<close>

theorem avl_node_cmp_result:
  "(tree = None \<or> a = Null \<or> b = Null \<or> (\<exists>t. tree = Some t \<and> cmp_node t = None)
      \<longrightarrow> avl_node_cmp tree a b = 0) \<and>
   (\<forall>t c. tree = Some t \<and> a \<noteq> Null \<and> b \<noteq> Null \<and> cmp_node t = Some c
      \<longrightarrow> avl_node_cmp tree a b = c a b)"
  by (auto simp: avl_node_cmp_def split: option.splits)

theorem avl_node_cmp_result_witness:
  "avl_node_cmp None (Node Null Null 1 1) (Node Null Null 1 (2::int)) = 0 \<and>
   avl_node_cmp (Some (demo_tree Null)) Null (Node Null Null 1 2) = 0 \<and>
   avl_node_cmp (Some (demo_tree Null)) (Node Null Null 1 1) Null = 0 \<and>
   avl_node_cmp (Some (avl_new :: int avl)) (Node Null Null 1 1) (Node Null Null 1 2) = 0 \<and>
   avl_node_cmp (Some (demo_tree Null)) (Node Null Null 1 1) (Node Null Null 1 2) = -1"
  using avl_node_cmp_result[of None "Node Null Null 1 1" "Node Null Null 1 (2::int)"]
    avl_node_cmp_result[of "Some (demo_tree Null)" Null "Node Null Null 1 2"]
    avl_node_cmp_result[of "Some (demo_tree Null)" "Node Null Null 1 1" Null]
    avl_node_cmp_result[of "Some (avl_new :: int avl)" "Node Null Null 1 1" "Node Null Null 1 2"]
    avl_node_cmp_result[of "Some (demo_tree Null)" "Node Null Null 1 1" "Node Null Null 1 2"]
  by (simp add: demo_tree_def avl_new_def compare_def)

section \<open>Traversals in key order\<close>

lemma forward_order_fold:
  "forward_order t (Some act) s = fold act (nodes_inorder t) s"
  by (induction t arbitrary: s) (auto simp: Let_def)

lemma reverse_order_fold:
  "reverse_order t (Some act) s = fold act (rev (nodes_inorder t)) s"
  by (induction t arbitrary: s) (auto simp: Let_def)

lemma fold_visit: "fold visit ns trace = trace @ ns"
  by (induction ns arbitrary: trace) (auto simp: visit_def)

lemma bst_sorted: "bst key t \<Longrightarrow> sorted (map key (inorder t))"
  by (induction t) (auto simp: sorted_append intro: less_imp_le order.trans less_trans)

text \<open>
  Claim C5. On a tree with the ordering invariant of a binary search tree, the forward-order
  walk calls the action on every node, from left to right, in non-decreasing key order, and
  the reverse-order walk visits exactly the reversed sequence.
\<close>

theorem walk_order:
  assumes "bst key t"
  shows "forward_order t (Some visit) [] = nodes_inorder t \<and>
         sorted (map (\<lambda>n. key (val n)) (forward_order t (Some visit) [])) \<and>
         reverse_order t (Some visit) [] = rev (forward_order t (Some visit) []) \<and>
         forward_order t (Some act) s = fold act (forward_order t (Some visit) []) s \<and>
         reverse_order t (Some act) s = fold act (reverse_order t (Some visit) []) s"
proof -
  have "map (\<lambda>n. key (val n)) (nodes_inorder t) = map key (inorder t)"
    by (induction t) auto
  with bst_sorted[OF assms] show ?thesis
    by (simp add: forward_order_fold reverse_order_fold fold_visit)
qed

theorem walk_order_witness:
  "map val (forward_order (Node (Node Null Null 1 10) (Node Null Null 1 30) 2 (20::int)) (Some visit) [])
     = [10, 20, 30] \<and>
   map val (reverse_order (Node (Node Null Null 1 10) (Node Null Null 1 30) 2 (20::int)) (Some visit) [])
     = [30, 20, 10] \<and>
   sorted (map (\<lambda>n. val n) (forward_order (Node (Node Null Null 1 10) (Node Null Null 1 30) 2 (20::int)) (Some visit) []))"
  using walk_order[OF bst_demo3, of visit "[]"]
  by (simp add: rev_map)

section \<open>Tree order\<close>

lemma tree_order_rec_fold:
  "tree_order_rec t (Some act) level s = fold act (level_nodes t level) s"
  unfolding level_nodes_def
  by (induction t arbitrary: s) (auto simp: Let_def)

lemma levels_down_step: "1 \<le> i \<Longrightarrow> levels_down t i = level_nodes t i @ levels_down t (i - 1)"
  by (simp add: levels_down_def upto_rec2)

lemma levels_down_stop: "\<not> 1 \<le> i \<Longrightarrow> levels_down t i = []"
  by (simp add: levels_down_def)

lemma tree_order_loop_fold:
  "tree_order_loop t (Some act) i s = fold act (levels_down t i) s"
proof (induction t "Some act" i s rule: tree_order_loop.induct)
  case (1 t i s)
  show ?case
  proof (cases "1 \<le> i")
    case True
    with 1 show ?thesis
      by (subst tree_order_loop.simps) (simp add: levels_down_step tree_order_rec_fold)
  next
    case False
    then show ?thesis by (subst tree_order_loop.simps) (simp add: levels_down_stop)
  qed
qed

lemma levels_down_heights:
  "n \<in> set (levels_down t i) \<Longrightarrow> 1 \<le> height_of n \<and> height_of n \<le> i"
  by (auto simp: levels_down_def level_nodes_def)

lemma sorted_wrt_filter_eq:
  "sorted_wrt (\<lambda>a b. f a \<ge> f b) (filter (\<lambda>n. f n = (i::int)) xs)"
  by (induction xs) auto

lemma mset_filter_level:
  "1 \<le> (i::int) \<Longrightarrow>
   mset (filter (\<lambda>n. f n = i) xs) + mset (filter (\<lambda>n. 1 \<le> f n \<and> f n \<le> i - 1) xs)
     = mset (filter (\<lambda>n. 1 \<le> f n \<and> f n \<le> i) xs)"
  by (induction xs) auto

lemma levels_down_descending:
  "sorted_wrt (\<lambda>a b. height_of a \<ge> height_of b) (levels_down t i)"
proof (induction "nat i" arbitrary: i)
  case 0
  then show ?case by (simp add: levels_down_stop)
next
  case (Suc k)
  then have i: "1 \<le> i" and k: "k = nat (i - 1)" by auto
  have "sorted_wrt (\<lambda>a b. height_of a \<ge> height_of b) (level_nodes t i)"
    unfolding level_nodes_def by (rule sorted_wrt_filter_eq)
  moreover have "\<forall>x \<in> set (level_nodes t i). \<forall>y \<in> set (levels_down t (i - 1)). height_of x \<ge> height_of y"
    using levels_down_heights[of _ t "i - 1"] by (fastforce simp: level_nodes_def)
  ultimately show ?case using Suc.hyps(1)[OF k] i
    by (simp add: levels_down_step sorted_wrt_append)
qed

lemma avl_inv_node_heights:
  "avl_inv t \<Longrightarrow> n \<in> set (nodes_preorder t) \<Longrightarrow> 1 \<le> height_of n \<and> height_of n \<le> height t"
proof (induction t)
  case Null
  then show ?case by simp
next
  case (Node l r h v)
  from Node.prems(1) have "avl_inv l" "avl_inv r" "h = 1 + max (height l) (height r)" by auto
  with Node.IH Node.prems(2) avl_inv_height_nonneg[of l] avl_inv_height_nonneg[of r]
  show ?case by fastforce
qed

lemma mset_levels_down:
  "mset (levels_down t i) = mset (filter (\<lambda>n. 1 \<le> height_of n \<and> height_of n \<le> i) (nodes_preorder t))"
proof (induction "nat i" arbitrary: i)
  case 0
  then have "\<not> 1 \<le> i" by simp
  then show ?case by (auto simp: levels_down_stop intro!: filter_False[symmetric])
next
  case (Suc k)
  then have i: "1 \<le> i" and k: "k = nat (i - 1)" by auto
  have "mset (level_nodes t i) + mset (filter (\<lambda>n. 1 \<le> height_of n \<and> height_of n \<le> i - 1) (nodes_preorder t))
      = mset (filter (\<lambda>n. 1 \<le> height_of n \<and> height_of n \<le> i) (nodes_preorder t))"
    unfolding level_nodes_def by (rule mset_filter_level[OF i])
  then show ?case using Suc.hyps(1)[OF k] i by (simp add: levels_down_step)
qed

text \<open>
  Claim C8. On a non-empty tree the tree-order walk runs through the levels from the cached
  height of the root down to 1; the pass for a level is a pre-order descent that calls the
  action exactly on the nodes whose cached height equals the level. The output is grouped by
  level in descending order and starts with the root (when the cached height of the root is
  at least 1); on a tree with the AVL property it contains every node once. A level is a
  value of the cached height field.
\<close>

theorem tree_order_levels:
  assumes "t \<noteq> Null"
  shows "tree_order_rec t (Some visit) level [] =
           filter (\<lambda>n. height_of n = level) (nodes_preorder t) \<and>
         tree_order t (Some visit) [] =
           concat (map (\<lambda>level. tree_order_rec t (Some visit) level [])
                       (rev [1..height_of t])) \<and>
         tree_order t (Some act) s = fold act (tree_order t (Some visit) []) s \<and>
         sorted_wrt (\<lambda>a b. height_of a \<ge> height_of b) (tree_order t (Some visit) []) \<and>
         (1 \<le> height_of t \<longrightarrow> hd (tree_order t (Some visit) []) = t) \<and>
         (avl_inv t \<longrightarrow> mset (tree_order t (Some visit) []) = mset (nodes_preorder t))"
proof -
  have rec: "tree_order_rec t (Some visit) lv [] = level_nodes t lv" for lv
    by (simp add: tree_order_rec_fold fold_visit)
  have tr: "tree_order t (Some visit) [] = levels_down t (height_of t)"
    using assms by (simp add: tree_order_def tree_order_loop_fold fold_visit)
  have c1: "tree_order_rec t (Some visit) level [] =
           filter (\<lambda>n. height_of n = level) (nodes_preorder t)"
    unfolding rec level_nodes_def ..
  have "(\<lambda>level. tree_order_rec t (Some visit) level []) = level_nodes t"
    using rec by blast
  then have c2: "tree_order t (Some visit) [] =
           concat (map (\<lambda>level. tree_order_rec t (Some visit) level [])
                       (rev [1..height_of t]))"
    unfolding tr levels_down_def by simp
  have c3: "tree_order t (Some act) s = fold act (tree_order t (Some visit) []) s"
    unfolding tr using assms by (simp add: tree_order_def tree_order_loop_fold)
  have c4: "sorted_wrt (\<lambda>a b. height_of a \<ge> height_of b) (tree_order t (Some visit) [])"
    unfolding tr by (rule levels_down_descending)
  from assms obtain l r h v where t: "t = Node l r h v" by (cases t) auto
  have c5: "hd (tree_order t (Some visit) []) = t" if "1 \<le> height_of t"
    unfolding tr using that t by (simp add: levels_down_step level_nodes_def)
  have c6: "mset (tree_order t (Some visit) []) = mset (nodes_preorder t)" if inv: "avl_inv t"
  proof -
    have "filter (\<lambda>n. 1 \<le> height_of n \<and> height_of n \<le> height_of t) (nodes_preorder t)
        = nodes_preorder t"
      using avl_inv_node_heights[OF inv] t by (intro filter_True) auto
    then show ?thesis unfolding tr by (simp add: mset_levels_down)
  qed
  from c1 c2 c3 c4 c5 c6 show ?thesis by blast
qed

theorem tree_order_levels_witness:
  "map val (tree_order (Node (Node (Node Null Null 1 1) Null 2 2) (Node Null Null 1 4) 3 (3::int))
              (Some visit) []) = [3, 2, 1, 4] \<and>
   hd (tree_order (Node (Node (Node Null Null 1 1) Null 2 2) (Node Null Null 1 4) 3 (3::int))
              (Some visit) [])
     = Node (Node (Node Null Null 1 1) Null 2 2) (Node Null Null 1 4) 3 3"
  using tree_order_levels[of "Node (Node (Node Null Null 1 1) Null 2 2) (Node Null Null 1 4) 3 (3::int)"
      1 visit "[]"]
  by (simp add: visit_def upto_rec1)

section \<open>Rebalancing after deletion\<close>

lemma delete_unwind_Null: "avl_delete_unwind Null = Some Null"
  by (simp add: avl_delete_unwind_def)

lemma delete_unwind_refines:
  "node \<noteq> Null \<Longrightarrow> avl_delete_unwind node = delete_unwind_spec node"
  by (cases node)
     (auto simp: avl_delete_unwind_def delete_unwind_spec_def delete_case_spec_def Let_def)

text \<open>
  Claim C7. On the way back from a deletion, the rebalancing case at a node is chosen by the
  balance factor of the child: \<open>\<ge> 0\<close> / \<open>< 0\<close> separates left-left from left-right, \<open>\<le> 0\<close> /
  \<open>> 0\<close> separates right-right from right-left. The unwinding of \<^verbatim>\<open>_avl_delete\<close> is the rule
  \<open>delete_unwind_spec\<close>, a function of the node alone, at every place where the function
  unwinds.
\<close>

theorem delete_rebalance_by_child_balance:
  assumes "target \<noteq> Null"
  shows "(node \<noteq> Null \<longrightarrow> avl_delete_unwind node = delete_unwind_spec node) \<and>
    (c target (Node l r h v) < 0 \<longrightarrow>
       avl_delete_rec (Node l r h v) target (Some c) =
         do { (l', released) \<leftarrow> avl_delete_rec l target (Some c);
              t \<leftarrow> delete_unwind_spec (Node l' r h v);
              Some (t, released) }) \<and>
    (c target (Node l r h v) > 0 \<longrightarrow>
       avl_delete_rec (Node l r h v) target (Some c) =
         do { (r', released) \<leftarrow> avl_delete_rec r target (Some c);
              t \<leftarrow> delete_unwind_spec (Node l r' h v);
              Some (t, released) }) \<and>
    (c target (Node l r h v) = 0 \<and> l \<noteq> Null \<and> r \<noteq> Null \<longrightarrow>
       avl_delete_rec (Node l r h v) target (Some c) =
         do { temp \<leftarrow> minimum_node r;
              (r', released) \<leftarrow>
                 avl_delete_rec (set_minimum_value r v)
                   (Node (left temp) (right temp) (height_of temp) v) (Some c);
              t \<leftarrow> delete_unwind_spec (Node l r' h (val temp));
              Some (t, released) }) \<and>
    (c target (Node l r h v) = 0 \<and> (l = Null \<or> r = Null) \<longrightarrow>
       avl_delete_rec (Node l r h v) target (Some c) =
         (let child = (if l \<noteq> Null then l else r)
          in if child \<noteq> Null
             then do { t \<leftarrow> delete_unwind_spec child; Some (t, [v]) }
             else Some (Null, [v])))"
  using assms by (auto simp: delete_unwind_refines delete_unwind_Null)

theorem delete_rebalance_by_child_balance_witness:
  "delete_case_spec (Node (Node (Node Null Null 1 10) (Node Null Null 1 25) 2 20) Null 3 (30::int))
     = Left_Left \<and>
   avl_delete_rec
     (Node (Node (Node Null Null 1 10) (Node Null Null 1 25) 2 20) (Node Null Null 1 40) 3 30)
     (Node Null Null 1 40) (Some compare)
     = Some (Node (Node Null Null 1 10) (Node (Node Null Null 1 25) Null 2 30) 3 20, [40])"
  using delete_rebalance_by_child_balance[of "Node Null Null 1 40" 
     "Node (Node (Node Null Null 1 10) (Node Null Null 1 25) 2 20) Null 3 (30::int)"
     compare "Node (Node Null Null 1 10) (Node Null Null 1 25) 2 20" "Node Null Null 1 40" 3 30]
  by (simp add: compare_def delete_unwind_spec_def delete_case_spec_def avl_delete_unwind_def)


section \<open>Insertion and deletion on search trees\<close>

lemma insert_unwind_inv:
  "avl_inv (Node l r h v) \<Longrightarrow> avl_insert_unwind c item (Node l r h v) = Some (Node l r h v)"
  by (auto simp: avl_insert_unwind_def Let_def)

lemma insert_rec_duplicate:
  assumes c: "total_order_cmp key c" and item: "item \<noteq> Null"
  shows "bst key t \<Longrightarrow> avl_inv t \<Longrightarrow> key (val item) \<in> key ` set (inorder t) \<Longrightarrow>
         avl_insert_rec t item (Some c) = Some t"
proof (induction t)
  case Null
  then show ?case by simp
next
  case (Node l r h v)
  let ?t = "Node l r h v"
  note lt = cmp_lt[OF c item, of ?t] and gt = cmp_gt[OF c item, of ?t]
  consider (L) "key (val item) < key v" | (M) "key (val item) = key v"
    | (R) "key v < key (val item)" by (meson linorder_less_linear)
  then show ?case
  proof cases
    case L
    with Node.prems have "key (val item) \<in> key ` set (inorder l)" by auto
    with Node.IH(1) Node.prems have "avl_insert_rec l item (Some c) = Some l" by simp
    with L lt item insert_unwind_inv[OF Node.prems(2)] show ?thesis by simp
  next
    case M
    with lt gt item show ?thesis by simp
  next
    case R
    with Node.prems have "key (val item) \<in> key ` set (inorder r)" by auto
    with Node.IH(2) Node.prems have "avl_insert_rec r item (Some c) = Some r" by simp
    with R lt gt item insert_unwind_inv[OF Node.prems(2)] show ?thesis by simp
  qed
qed

lemma delete_rec_absent:
  "avl_inv t \<Longrightarrow> \<forall>n \<in> set (nodes_inorder t). c target n \<noteq> 0 \<Longrightarrow>
     avl_delete_rec t target (Some c) = Some (t, [])"
proof (induction t)
  case Null
  then show ?case by simp
next
  case (Node l r h v)
  from Node.prems have b: "\<bar>height l - height r\<bar> \<le> 1" "h = 1 + max (height l) (height r)" by auto
  from Node.prems Node.IH have
    "avl_delete_rec l target (Some c) = Some (l, [])" "avl_delete_rec r target (Some c) = Some (r, [])"
    by auto
  moreover from Node.prems(2) have "c target (Node l r h v) \<noteq> 0" by simp
  ultimately show ?case using delete_unwind_balanced[OF b(1), of h v] b(2)
    by (auto simp: Let_def)
qed


lemma rotate_right_inorder: "avl_rotate_right t = Some t' \<Longrightarrow> inorder t' = inorder t"
  by (cases t rule: avl_rotate_right.cases) (auto simp: Let_def)

lemma rotate_left_inorder: "avl_rotate_left t = Some t' \<Longrightarrow> inorder t' = inorder t"
  by (cases t rule: avl_rotate_left.cases) (auto simp: Let_def)

lemma delete_unwind_inorder: "avl_delete_unwind t = Some t' \<Longrightarrow> inorder t' = inorder t"
  by (cases t)
     (auto simp: avl_delete_unwind_def Let_def bind_eq_Some_conv
           dest!: rotate_right_inorder rotate_left_inorder split: if_splits)

lemma insert_unwind_inorder:
  "avl_insert_unwind c item t = Some t' \<Longrightarrow> inorder t' = inorder t"
  by (cases t)
     (auto simp: avl_insert_unwind_def Let_def bind_eq_Some_conv
           dest!: rotate_right_inorder rotate_left_inorder split: if_splits)

lemma minimum_node_inorder:
  "minimum_node t = Some m \<Longrightarrow> m \<noteq> Null \<and> (\<exists>rest. inorder t = val m # rest)"
  by (induction t) (auto split: if_splits)

lemma inorder_Nil: "inorder t = [] \<longleftrightarrow> t = Null"
  by (cases t) auto

lemma set_minimum_value_inorder:
  "inorder t = y # rest \<Longrightarrow> inorder (set_minimum_value t x) = x # rest"
proof (induction t arbitrary: rest)
  case Null
  then show ?case by simp
next
  case (Node l r h v)
  show ?case
  proof (cases "l = Null")
    case True
    with Node.prems show ?thesis by simp
  next
    case False
    then obtain y' rest' where l: "inorder l = y' # rest'"
      by (cases "inorder l") (auto simp: inorder_Nil)
    with Node.prems have "y' = y" "rest = rest' @ v # inorder r" by auto
    with Node.IH(1)[of rest'] l False show ?thesis by simp
  qed
qed

lemma bst_iff_sorted: "bst key t \<longleftrightarrow> sorted_wrt (<) (map key (inorder t))"
  by (induction t) (auto simp: sorted_wrt_append intro: less_trans)

lemma filter_keys_lt:
  "\<forall>x \<in> set xs. key x < (k::'k::linorder) \<Longrightarrow>
     filter (\<lambda>x. key x \<noteq> k) xs = xs \<and> filter (\<lambda>x. key x = k) xs = []"
  by (induction xs) auto

lemma filter_keys_gt:
  "\<forall>x \<in> set xs. (k::'k::linorder) < key x \<Longrightarrow>
     filter (\<lambda>x. key x \<noteq> k) xs = xs \<and> filter (\<lambda>x. key x = k) xs = []"
  by (induction xs) auto

lemma delete_rec_bst:
  assumes c: "total_order_cmp key c"
  shows "cmpo = Some c \<Longrightarrow> target \<noteq> Null \<Longrightarrow> bst key t \<Longrightarrow> avl_inv t \<Longrightarrow>
     \<exists>t'. avl_delete_rec t target cmpo = Some
             (t', filter (\<lambda>x. key x = key (val target)) (inorder t)) \<and>
          inorder t' = filter (\<lambda>x. key x \<noteq> key (val target)) (inorder t)"
proof (induction t target cmpo rule: avl_delete_rec.induct)
  case (1 target cmpo)
  show ?case by simp
next
  case (2 l r h v target cmpo)
  let ?t = "Node l r h v" and ?k = "key (val target)"
  note co = "2.prems"(1) and tn = "2.prems"(2)
  from "2.prems" have bl: "bst key l" and br: "bst key r"
    and ll: "\<forall>x \<in> set (inorder l). key x < key v" and rr: "\<forall>x \<in> set (inorder r). key v < key x"
    and il: "avl_inv l" and ir: "avl_inv r" by auto
  note clt = cmp_lt[OF c tn, of ?t] and cgt = cmp_gt[OF c tn, of ?t]
  from delete_rec_avl[OF "2.prems"(4), of target cmpo] obtain t' rel where
    res: "avl_delete_rec ?t target cmpo = Some (t', rel)" by blast
  consider (lt) "c target ?t < 0" | (gt) "\<not> c target ?t < 0" "c target ?t > 0"
    | (one) "\<not> c target ?t < 0" "\<not> c target ?t > 0" "l = Null \<or> r = Null"
    | (two) "\<not> c target ?t < 0" "\<not> c target ?t > 0" "\<not> (l = Null \<or> r = Null)" by blast
  then show ?case
  proof cases
    case lt
    then have k: "?k < key v" using clt by simp
    with rr have "\<forall>x \<in> set (inorder r). ?k < key x" by auto
    note fr = filter_keys_gt[OF this]
    from "2.IH"(1)[OF tn co refl lt co tn bl il] obtain l' where
      l': "avl_delete_rec l target cmpo =
             Some (l', filter (\<lambda>x. key x = ?k) (inorder l))"
          "inorder l' = filter (\<lambda>x. key x \<noteq> ?k) (inorder l)" by blast
    from res lt tn co l'(1) have "avl_delete_unwind (Node l' r h v) = Some t'"
      and "rel = filter (\<lambda>x. key x = ?k) (inorder l)"
      by (auto simp: bind_eq_Some_conv)
    with delete_unwind_inorder[OF this(1)] l'(2) res k fr show ?thesis by auto
  next
    case gt
    then have k: "key v < ?k" using cgt by simp
    with ll have "\<forall>x \<in> set (inorder l). key x < ?k" by auto
    note fl = filter_keys_lt[OF this]
    from "2.IH"(2)[OF tn co refl gt co tn br ir] obtain r' where
      r': "avl_delete_rec r target cmpo =
             Some (r', filter (\<lambda>x. key x = ?k) (inorder r))"
          "inorder r' = filter (\<lambda>x. key x \<noteq> ?k) (inorder r)" by blast
    from res gt tn co r'(1) have "avl_delete_unwind (Node l r' h v) = Some t'"
      and "rel = filter (\<lambda>x. key x = ?k) (inorder r)"
      by (auto simp: bind_eq_Some_conv)
    with delete_unwind_inorder[OF this(1)] r'(2) res k fl show ?thesis by auto
  next
    case one
    then have k: "?k = key v" using clt cgt by simp
    from ll k have fl: "filter (\<lambda>x. key x \<noteq> ?k) (inorder l) = inorder l"
        "filter (\<lambda>x. key x = ?k) (inorder l) = []" using filter_keys_lt[of "inorder l" key ?k] by auto
    from rr k have fr: "filter (\<lambda>x. key x \<noteq> ?k) (inorder r) = inorder r"
        "filter (\<lambda>x. key x = ?k) (inorder r) = []" using filter_keys_gt[of "inorder r" ?k key] by auto
    let ?child = "if l \<noteq> Null then l else r"
    from il ir have "avl_inv ?child" by simp
    from one tn co delete_unwind_inv[OF this]
    have "avl_delete_rec ?t target cmpo = Some (?child, [v])" by auto
    moreover from one(3) have "inorder ?child = inorder l @ inorder r" by auto
    ultimately show ?thesis using k fl fr by simp
  next
    case two
    then have k: "?k = key v" using clt cgt by simp
    from ll k have fl: "filter (\<lambda>x. key x \<noteq> ?k) (inorder l) = inorder l"
        "filter (\<lambda>x. key x = ?k) (inorder l) = []" using filter_keys_lt[of "inorder l" key ?k] by auto
    from rr k have fr: "filter (\<lambda>x. key x \<noteq> ?k) (inorder r) = inorder r"
        "filter (\<lambda>x. key x = ?k) (inorder r) = []" using filter_keys_gt[of "inorder r" ?k key] by auto
    from two have "r \<noteq> Null" by simp
    from minimum_node_Some[OF this] obtain ml mr mh mv where
      m: "minimum_node r = Some (Node ml mr mh mv)" by blast
    from minimum_node_inorder[OF m] obtain rest where rest: "inorder r = mv # rest" by auto
    let ?r1 = "set_minimum_value r v" and ?tg = "Node ml mr mh v"
    have in1: "inorder ?r1 = v # rest" by (rule set_minimum_value_inorder[OF rest])
    from rr rest have rest_gt: "\<forall>x \<in> set rest. key v < key x" by simp
    from br rest have "sorted_wrt (<) (map key rest)" by (simp add: bst_iff_sorted)
    with rest_gt in1 have b1: "bst key ?r1" by (auto simp: bst_iff_sorted)
    have i1: "avl_inv ?r1" using ir by simp
    have tg: "?tg \<noteq> Null" by simp
    from "2.IH"(3)[OF tn co refl two m co _ b1 i1] obtain r' where
      r': "avl_delete_rec ?r1 ?tg cmpo = Some (r', filter (\<lambda>x. key x = key v) (inorder ?r1))"
          "inorder r' = filter (\<lambda>x. key x \<noteq> key v) (inorder ?r1)" by auto
    from rest_gt have f1: "filter (\<lambda>x. key x = key v) (inorder ?r1) = [v]"
      "filter (\<lambda>x. key x \<noteq> key v) (inorder ?r1) = rest"
      using filter_keys_gt[of rest "key v" key] in1 by auto
    from res two tn co m r'(1) f1 have "avl_delete_unwind (Node l r' h mv) = Some t'" and "rel = [v]"
      by (auto simp: bind_eq_Some_conv)
    with delete_unwind_inorder[OF this(1)] r'(2) f1 res k fl fr rest show ?thesis by auto
  qed
qed

lemma length_nodes_inorder: "length (nodes_inorder t) = length (inorder t)"
  using map_val_nodes_inorder[of t] by (metis length_map)

lemma filter_key_single:
  "sorted_wrt (<) (map key xs) \<Longrightarrow> x \<in> set xs \<Longrightarrow>
     filter (\<lambda>y. key y = (key x :: 'k::linorder)) xs = [x]"
proof (induction xs)
  case Nil
  then show ?case by simp
next
  case (Cons a xs)
  show ?case
  proof (cases "x = a")
    case True
    with Cons.prems(1) have "\<forall>y \<in> set xs. key x < key y" by auto
    from filter_keys_gt[OF this] True show ?thesis by simp
  next
    case False
    with Cons.prems have "x \<in> set xs" "key a < key x" by auto
    with Cons show ?thesis by auto
  qed
qed

text \<open>
  Claim C2, as amended. For a tree with a comparator installed, the AVL property and the
  ordering invariant, and a non-null item whose key equals the key of a node of the tree,
  \<^verbatim>\<open>avl_insert\<close> returns 0, the success indicator; the root and all nodes are left as they
  were (the cached tree height is written again from the root) and the item is not linked
  into the tree.
\<close>

theorem avl_insert_duplicate:
  assumes "cmp_node t = Some c" and "total_order_cmp key c"
    and "avl_inv (root t)" and "bst key (root t)" and "item \<noteq> Null"
    and "n \<in> set (nodes_inorder (root t))" and "c item n = 0"
  shows "avl_insert (Some t) item = Some (0, Some (t\<lparr>tree_height := height (root t)\<rparr>))"
proof -
  from assms(6) have nn: "n \<noteq> Null" by (rule nodes_inorder_not_Null)
  from assms(7) have "key (val item) = key (val n)"
    using cmp_eq[OF assms(2,5) nn] by simp
  with val_in_inorder[OF assms(6)] have "key (val item) \<in> key ` set (inorder (root t))"
    by auto
  from insert_rec_duplicate[OF assms(2,5,4,3) this] nn assms(1,5,6) show ?thesis
    by (cases "root t") (auto simp: avl_insert_def)
qed

theorem avl_insert_duplicate_witness:
  "avl_insert (Some (demo_tree (Node (Node Null Null 1 10) (Node Null Null 1 30) 2 20)))
      (Node Null Null 1 30)
   = Some (0, Some (demo_tree (Node (Node Null Null 1 10) (Node Null Null 1 30) 2 20)))"
  using avl_insert_duplicate[of "demo_tree (Node (Node Null Null 1 10) (Node Null Null 1 30) 2 20)"
     compare "\<lambda>x. x" "Node Null Null 1 30" "Node Null Null 1 30"] total_order_cmp_compare
  by (simp add: demo_tree_def compare_def)

text \<open>The claim as stated asks for the return value -1: inserting key 10 into the tree that
  holds key 10 returns 0.\<close>

theorem avl_insert_duplicate_counterexample:
  "compare (Node Null Null 1 10) (Node Null Null 1 10) = 0 \<and>
   avl_insert (Some (demo_tree (Node Null Null 1 10))) (Node Null Null 1 10)
     = Some (0, Some (demo_tree (Node Null Null 1 10)))"
  by (simp add: demo_tree_def compare_def avl_insert_def)

text \<open>
  Claim C3, as amended. \<^verbatim>\<open>avl_delete\<close> returns -1 when the tree is null, the target is null
  or the tree is empty. On a non-empty tree with a comparator installed, the AVL property
  and the ordering invariant it returns 0 when no node has the target's key: the root and
  all nodes are left as they were, no node is released, and the cached tree height is
  written again from the root, so that the tree is exactly as it was when its cached height
  was that of the root; it returns 0 when a node has the target's key and the tree has at
  least two nodes, and then one node with that key is released and the other payloads stay
  in order in a tree with the AVL property whose cached height is that of its root.
\<close>

theorem avl_delete_result:
  assumes "cmp_node t = Some c" and "total_order_cmp key c"
    and "avl_inv (root t)" and "bst key (root t)" and "target \<noteq> Null"
  shows "avl_delete None target = Some (-1, None, []) \<and>
     avl_delete (Some t) Null = Some (-1, Some t, []) \<and>
     (root t = Null \<longrightarrow> avl_delete (Some t) target = Some (-1, Some t, [])) \<and>
     (root t \<noteq> Null \<and> (\<forall>n \<in> set (nodes_inorder (root t)). c target n \<noteq> 0) \<longrightarrow>
        avl_delete (Some t) target = Some (0, Some (t\<lparr>tree_height := height (root t)\<rparr>), [])) \<and>
     (root t \<noteq> Null \<and> (\<forall>n \<in> set (nodes_inorder (root t)). c target n \<noteq> 0) \<and>
       tree_height t = height (root t) \<longrightarrow>
        avl_delete (Some t) target = Some (0, Some t, [])) \<and>
     ((\<exists>n \<in> set (nodes_inorder (root t)). c target n = 0) \<and>
       2 \<le> length (nodes_inorder (root t)) \<longrightarrow>
        (\<exists>t' x. avl_delete (Some t) target = Some (0, Some t', [x]) \<and>
           key x = key (val target) \<and>
           inorder (root t') = filter (\<lambda>y. key y \<noteq> key (val target)) (inorder (root t)) \<and>
           avl_inv (root t') \<and> tree_height t' = height (root t')))"
proof -
  have absent: "avl_delete (Some t) target = Some (0, Some (t\<lparr>tree_height := height (root t)\<rparr>), [])"
    if "root t \<noteq> Null" "\<forall>n \<in> set (nodes_inorder (root t)). c target n \<noteq> 0"
    using delete_rec_absent[OF assms(3), of c target] that assms(1,5)
    by (simp add: avl_delete_def)
  have present: "\<exists>t' x. avl_delete (Some t) target = Some (0, Some t', [x]) \<and>
           key x = key (val target) \<and>
           inorder (root t') = filter (\<lambda>y. key y \<noteq> key (val target)) (inorder (root t)) \<and>
           avl_inv (root t') \<and> tree_height t' = height (root t')"
    if n: "n \<in> set (nodes_inorder (root t))" "c target n = 0"
      and len: "2 \<le> length (nodes_inorder (root t))" for n
  proof -
    let ?k = "key (val target)"
    from n have k: "key (val n) = ?k"
      using cmp_eq[OF assms(2,5) nodes_inorder_not_Null[OF n(1)]] by simp
    from assms(4) have srt: "sorted_wrt (<) (map key (inorder (root t)))"
      by (simp add: bst_iff_sorted)
    from filter_key_single[OF srt val_in_inorder[OF n(1)]] k
    have f: "filter (\<lambda>y. key y = ?k) (inorder (root t)) = [val n]" by simp
    from delete_rec_bst[OF assms(2) refl assms(5,4,3)] f obtain r' where
      r': "avl_delete_rec (root t) target (Some c) = Some (r', [val n])"
          "inorder r' = filter (\<lambda>y. key y \<noteq> ?k) (inorder (root t))" by auto
    from delete_rec_avl[OF assms(3), of target "Some c"] r'(1) have inv: "avl_inv r'" by auto
    have "length (filter (\<lambda>y. key y = ?k) (inorder (root t))) +
          length (filter (\<lambda>y. key y \<noteq> ?k) (inorder (root t))) = length (inorder (root t))"
      using sum_length_filter_compl[of "\<lambda>y. key y = ?k" "inorder (root t)"] by simp
    with f len r'(2) have "inorder r' \<noteq> []" by (auto simp: length_nodes_inorder)
    then have "r' \<noteq> Null" by (simp add: inorder_Nil)
    with r' inv assms(1,5) k show ?thesis by (simp add: avl_delete_def)
  qed
  have same: "t\<lparr>tree_height := height (root t)\<rparr> = t" if "tree_height t = height (root t)"
    using that by simp
  from absent present same assms(5) show ?thesis
    by (auto simp: avl_delete_def)
qed

theorem avl_delete_result_witness:
  "avl_delete (Some (demo_tree Null)) (Node Null Null 1 20) = Some (-1, Some (demo_tree Null), []) \<and>
   avl_delete (Some (demo_tree (Node (Node Null Null 1 10) (Node Null Null 1 30) 2 20)))
      (Node Null Null 1 16)
     = Some (0, Some (demo_tree (Node (Node Null Null 1 10) (Node Null Null 1 30) 2 20)), []) \<and>
   avl_delete (Some (demo_tree (Node (Node Null Null 1 10) (Node Null Null 1 30) 2 20)))
      (Node Null Null 1 20)
     = Some (0, Some (demo_tree (Node (Node Null Null 1 10) Null 2 30)), [20])"
  using avl_delete_result[of "demo_tree Null" compare "\<lambda>x. x" "Node Null Null 1 20"]
    avl_delete_result[of "demo_tree (Node (Node Null Null 1 10) (Node Null Null 1 30) 2 20)"
       compare "\<lambda>x. x" "Node Null Null 1 16"]
    avl_delete_result[of "demo_tree (Node (Node Null Null 1 10) (Node Null Null 1 30) 2 20)"
       compare "\<lambda>x. x" "Node Null Null 1 20"]
    total_order_cmp_compare
  by (simp add: demo_tree_def compare_def avl_delete_def avl_delete_unwind_def)

text \<open>The claim as stated asks for -1 when no node has the target's key: deleting key 20 from
  the tree that holds only key 10 returns 0.\<close>

theorem avl_delete_result_counterexample:
  "compare (Node Null Null 1 20) (Node Null Null 1 10) \<noteq> 0 \<and>
   avl_delete (Some (demo_tree (Node Null Null 1 10))) (Node Null Null 1 20)
     = Some (0, Some (demo_tree (Node Null Null 1 10)), [])"
  by (simp add: demo_tree_def compare_def avl_delete_def avl_delete_unwind_def)

text \<open>
  Claim C4. \<^verbatim>\<open>avl_insert\<close> and \<^verbatim>\<open>avl_delete\<close> either succeed or report failure and leave the
  tree as it was, releasing no node. Deleting the only node of a tree: \<^verbatim>\<open>_avl_delete\<close>
  releases the node and returns \<^verbatim>\<open>NULL\<close>, which \<^verbatim>\<open>avl_delete\<close> takes for a failure; it returns
  -1 and does not write \<^verbatim>\<open>tree->root\<close>, which still names the released node.
\<close>

theorem avl_delete_last_node:
  "avl_delete (Some (demo_tree (Node Null Null 1 10))) (Node Null Null 1 10)
     = Some (-1, Some (demo_tree (Node Null Null 1 10)), [10])"
  by (simp add: demo_tree_def compare_def avl_delete_def avl_delete_unwind_def)

section \<open>Duplication\<close>

lemma insert_rec_Null_item: "avl_insert_rec t Null cmpo = Some t"
  by (cases t) auto

lemma insert_copies_append:
  "insert_copies t (xs @ ys) acc = do { a \<leftarrow> insert_copies t xs acc; insert_copies t ys a }"
proof (induction xs arbitrary: acc)
  case Nil
  show ?case by simp
next
  case (Cons x xs)
  then have "insert_copies t (xs @ ys) = (\<lambda>a. insert_copies t xs a \<bind> insert_copies t ys)"
    by blast
  then show ?case by simp
qed

lemma dup_tree_insert_copies:
  "dup_tree (Some t) acc s = insert_copies t (nodes_inorder s) acc"
proof (induction s arbitrary: acc)
  case Null
  show ?case by simp
next
  case (Node l r h v)
  have l: "(if l \<noteq> Null then dup_tree (Some t) a l else Some a) = insert_copies t (nodes_inorder l) a" for a
    using Node.IH(1)[of a] by (cases l) auto
  have r: "(if r \<noteq> Null then dup_tree (Some t) a r else Some a) = insert_copies t (nodes_inorder r) a" for a
    using Node.IH(2)[of a] by (cases r) auto
  have m: "(let node = avl_node_dup (Some t) (Node l r h v)
            in if node \<noteq> Null then avl_insert_rec a node (cmp_node t) else Some a)
         = avl_insert_rec a (avl_node_dup (Some t) (Node l r h v)) (cmp_node t)" for a
    by (simp add: Let_def insert_rec_Null_item)
  show ?case
    by (simp only: dup_tree.simps option.case l r m nodes_inorder.simps insert_copies_append
          insert_copies.simps Option.bind_assoc Option.bind.simps Option.bind_runit
          append_Cons append_Nil)
qed

lemma avl_node_dup_faithful:
  "faithful_dup key t \<Longrightarrow> n \<noteq> Null \<Longrightarrow>
     new_leaf (avl_node_dup (Some t) n) \<and> key (val (avl_node_dup (Some t) n)) = key (val n)"
  by (auto simp: faithful_dup_def avl_node_dup_def new_leaf_def split: option.splits)

lemma insert_rec_inorder_max:
  assumes c: "total_order_cmp key c" and leaf: "new_leaf item"
  shows "avl_insert_rec t item (Some c) = Some t' \<Longrightarrow>
         \<forall>x \<in> set (inorder t). key x < key (val item) \<Longrightarrow>
         inorder t' = inorder t @ [val item]"
proof (induction t arbitrary: t')
  case Null
  with leaf show ?case by (cases item) (auto simp: new_leaf_def)
next
  case (Node l r h v)
  let ?t = "Node l r h v"
  from leaf have item: "item \<noteq> Null" by (simp add: new_leaf_def)
  from Node.prems(2) have "key v < key (val item)" by simp
  then have gt: "c item ?t > 0" "\<not> c item ?t < 0"
    using cmp_gt[OF c item, of ?t] cmp_lt[OF c item, of ?t] by auto
  with Node.prems(1) item obtain r' where
    r': "avl_insert_rec r item (Some c) = Some r'" "avl_insert_unwind c item (Node l r' h v) = Some t'"
    by (auto simp: bind_eq_Some_conv)
  from Node.IH(2)[OF r'(1)] Node.prems(2) have "inorder r' = inorder r @ [val item]" by simp
  with insert_unwind_inorder[OF r'(2)] show ?case by simp
qed


lemma dup_tree_sorted_source:
  assumes c: "total_order_cmp key c" and t: "cmp_node t = Some c" and d: "faithful_dup key t"
  shows "bst key s \<Longrightarrow> avl_inv acc \<Longrightarrow>
         \<forall>x \<in> set (inorder acc). \<forall>y \<in> set (inorder s). key x < key y \<Longrightarrow>
         \<exists>acc'. insert_copies t (nodes_inorder s) acc = Some acc' \<and> avl_inv acc' \<and>
            map key (inorder acc') = map key (inorder acc) @ map key (inorder s)"
proof (induction s arbitrary: acc)
  case Null
  then show ?case by simp
next
  case (Node l r h v)
  let ?s = "Node l r h v"
  from Node.prems(1) have bl: "bst key l" and br: "bst key r"
    and ll: "\<forall>x \<in> set (inorder l). key x < key v" and rr: "\<forall>x \<in> set (inorder r). key v < key x"
    by auto
  from Node.IH(1)[OF bl Node.prems(2)] Node.prems(3) obtain a1 where
    a1: "insert_copies t (nodes_inorder l) acc = Some a1" "avl_inv a1"
        "map key (inorder a1) = map key (inorder acc) @ map key (inorder l)" by auto
  let ?n = "avl_node_dup (Some t) ?s"
  from avl_node_dup_faithful[OF d, of ?s] have n: "new_leaf ?n" "key (val ?n) = key v" by auto
  have "set (map key (inorder a1)) = key ` set (inorder acc) \<union> key ` set (inorder l)"
    unfolding a1(3) by simp
  then have "key ` set (inorder a1) = key ` set (inorder acc) \<union> key ` set (inorder l)" by simp
  then have keys1: "key ` set (inorder a1) = key ` set (inorder acc) \<union> key ` set (inorder l)" .
  have lt1: "\<forall>x \<in> set (inorder a1). key x < key (val ?n)"
  proof
    fix x assume "x \<in> set (inorder a1)"
    then have "key x \<in> key ` set (inorder acc) \<union> key ` set (inorder l)"
      using keys1 by blast
    then obtain x' where x': "key x' = key x" "x' \<in> set (inorder acc) \<or> x' \<in> set (inorder l)"
      by auto
    from x'(2) have "key x' < key v"
    proof
      assume "x' \<in> set (inorder acc)"
      with Node.prems(3) show ?thesis by simp
    next
      assume "x' \<in> set (inorder l)"
      with ll show ?thesis by simp
    qed
    with x'(1) n(2) show "key x < key (val ?n)" by simp
  qed
  from insert_rec_avl[OF c n(1) a1(2)] obtain a2 where
    a2: "avl_insert_rec a1 ?n (Some c) = Some a2" "avl_inv a2" by blast
  from insert_rec_inorder_max[OF c n(1) a2(1) lt1] have in2: "inorder a2 = inorder a1 @ [val ?n]" .
  have lt2: "\<forall>x \<in> set (inorder a2). \<forall>y \<in> set (inorder r). key x < key y"
  proof (intro ballI)
    fix x y assume x: "x \<in> set (inorder a2)" and y: "y \<in> set (inorder r)"
    from y rr have "key v < key y" by simp
    moreover from x in2 lt1 n(2) have "key x \<le> key v" by auto
    ultimately show "key x < key y" by simp
  qed
  from Node.IH(2)[OF br a2(2) lt2] obtain a3 where
    a3: "insert_copies t (nodes_inorder r) a2 = Some a3" "avl_inv a3"
        "map key (inorder a3) = map key (inorder a2) @ map key (inorder r)" by auto
  from a1 a2 a3 in2 n(2) t show ?case
    by (simp add: insert_copies_append)
qed


lemma forward_order_keys:
  "map (\<lambda>n. key (val n)) (forward_order t (Some visit) []) = map key (inorder t)"
proof -
  have "map (\<lambda>n. key (val n)) (nodes_inorder t) = map key (inorder t)"
    by (induction t) auto
  then show ?thesis by (simp add: forward_order_fold fold_visit)
qed

text \<open>
  Claim C6. For a tree with a comparator installed and the ordering invariant, \<^verbatim>\<open>avl_dup\<close>
  returns a new tree whose forward-order key sequence is that of the source and which has
  the AVL property; its root is the result of inserting the duplicates of the source's nodes,
  taken from left to right, with \<^verbatim>\<open>_avl_insert\<close>. The hooks are copied and the cached tree
  height of the new tree is 0. The shape may differ from the source's.
\<close>

theorem avl_dup_fidelity:
  assumes "cmp_node t = Some c" and "total_order_cmp key c" and "bst key (root t)"
    and "faithful_dup key t"
  shows "\<exists>d. avl_dup (Some t) = Some (Some d) \<and>
     map (\<lambda>n. key (val n)) (forward_order (root d) (Some visit) []) =
       map (\<lambda>n. key (val n)) (forward_order (root t) (Some visit) []) \<and>
     avl_inv (root d) \<and> bst key (root d) \<and>
     insert_copies t (nodes_inorder (root t)) Null = Some (root d) \<and>
     d = t\<lparr>root := root d, tree_height := 0\<rparr>"
proof -
  from dup_tree_sorted_source[OF assms(2,1,4,3), of Null] obtain r' where
    r': "insert_copies t (nodes_inorder (root t)) Null = Some r'" "avl_inv r'"
        "map key (inorder r') = map key (inorder (root t))" by auto
  let ?d = "t\<lparr>root := r', tree_height := 0\<rparr>"
  from r'(1) have "avl_dup (Some t) = Some (Some ?d)"
    by (simp add: avl_dup_def dup_tree_insert_copies)
  moreover from r'(3) assms(3) have "bst key r'" by (simp add: bst_iff_sorted)
  ultimately show ?thesis using r' by (simp add: forward_order_keys)
qed

theorem avl_dup_fidelity_witness:
  "avl_dup (Some (demo_tree (Node (Node (Node Null Null 1 1) Null 2 2) (Node Null Null 1 4) 3 3)))
     = Some (Some ((demo_tree (Node (Node (Node Null Null 1 1) Null 2 2) (Node Null Null 1 4) 3 3))
          \<lparr>root := Node (Node Null Null 1 1) (Node Null (Node Null Null 1 4) 2 3) 3 2,
           tree_height := 0\<rparr>)) \<and>
   Node (Node Null Null 1 1) (Node Null (Node Null Null 1 4) 2 3) 3 2
     \<noteq> root (demo_tree (Node (Node (Node Null Null 1 1) Null 2 2) (Node Null Null 1 4) 3 3)) \<and>
   avl_inv (Node (Node Null Null 1 1) (Node Null (Node Null Null 1 4) 2 3) 3 (2::int))"
  using avl_dup_fidelity[of
      "demo_tree (Node (Node (Node Null Null 1 1) Null 2 2) (Node Null Null 1 4) 3 3)"
      compare "\<lambda>x. x"] total_order_cmp_compare
  by (simp add: demo_tree_def faithful_dup_def avl_dup_def avl_node_dup_def compare_def
        avl_insert_unwind_def)

end
